theory Spec2Isabelle
  imports Main "HOL-Library.Word"
begin

unbundle bit_operations_syntax

section \<open>The multi-queue block layer: block/blk-mq.c and block/blk-mq.h\<close>

text \<open>
  The development follows the C source function by function. C pointers to requests are
  modelled by the request values themselves (every request sits on at most one list at a
  time), \<open>NULL\<close> by \<open>None\<close>, \<open>unsigned int\<close> by \<open>32 word\<close>, \<open>unsigned long\<close>
  by \<open>64 word\<close>, and \<open>int\<close> fields that only hold a tag number or \<open>-1\<close> by \<open>int\<close>.
\<close>

subsection \<open>Tag to request lookup (\<open>blk_mq_tag_to_rq\<close>)\<close>

text \<open>
  \<open>struct blk_mq_tags\<close>: the capacity \<open>nr_tags\<close>, the size \<open>nr_reserved_tags\<close> of
  the reserved sub-range, the pointer array \<open>rqs\<close> and the bitmap of tags in use. The
  array is a list of optional entries (a \<open>NULL\<close> slot is \<open>None\<close>); its length is the
  number of slots that were allocated. The kernel keeps two bitmaps (\<open>bitmap_tags\<close> and
  \<open>breserved_tags\<close>, block/blk-mq-tag.c); the model keeps one bitmap over all tag
  numbers, bit \<open>t\<close> set while tag \<open>t\<close> is held.
\<close>

record 'rq blk_mq_tags =
  nr_tags :: "32 word"
  nr_reserved_tags :: "32 word"
  rqs :: "'rq option list"
  bitmap_tags :: "bool list"

text \<open>
  A C array read has no bounds check. The model makes the out-of-range read a value of
  its own, so that a lookup which would leave the array is visible in the result.
\<close>

datatype 'a array_read = OutOfBounds | Loaded 'a

definition array_load :: "'a list \<Rightarrow> nat \<Rightarrow> 'a array_read" where
  "array_load xs i = (if i < length xs then Loaded (xs ! i) else OutOfBounds)"

text \<open>
  \<^verbatim>\<open>
  struct request *blk_mq_tag_to_rq(struct blk_mq_tags *tags, unsigned int tag)
  {
          if (tag < tags->nr_tags)
                  return tags->rqs[tag];
          return NULL;
  }
  \<close>
\<close>

definition blk_mq_tag_to_rq :: "'rq blk_mq_tags \<Rightarrow> 32 word \<Rightarrow> 'rq option array_read" where
  "blk_mq_tag_to_rq tags tag =
     (if tag < nr_tags tags then array_load (rqs tags) (unat tag) else Loaded None)"

text \<open>
  \<open>blk_mq_alloc_rq_map\<close> allocates \<open>rqs\<close> with \<open>kzalloc_node(nr_tags * sizeof(struct
  request *))\<close>: \<open>nr_tags\<close> slots, all \<open>NULL\<close>. The tag-pool part of the structure comes
  from \<open>blk_mq_init_tags\<close> (block/blk-mq-tag.c), which records the same \<open>nr_tags\<close>.
\<close>

definition blk_mq_alloc_rq_map :: "32 word \<Rightarrow> 32 word \<Rightarrow> 'rq blk_mq_tags" where
  "blk_mq_alloc_rq_map n reserved =
     \<lparr> nr_tags = n, nr_reserved_tags = reserved, rqs = replicate (unat n) None,
       bitmap_tags = replicate (unat n) False \<rparr>"

definition tags_allocated :: "'rq blk_mq_tags \<Rightarrow> bool" where
  "tags_allocated tags = (unat (nr_tags tags) \<le> length (rqs tags))"

lemma blk_mq_alloc_rq_map_allocated: "tags_allocated (blk_mq_alloc_rq_map n r)"
  by (simp add: tags_allocated_def blk_mq_alloc_rq_map_def)

text \<open>
  C10. For every tag pool whose \<open>rqs\<close> array has at least \<open>nr_tags\<close> slots (as
  \<open>blk_mq_alloc_rq_map\<close> builds it) and every tag value: the lookup returns \<open>NULL\<close> when
  the tag is greater than or equal to \<open>nr_tags\<close>, otherwise it returns the entry stored at
  that index, and it never reads outside the array.
\<close>

theorem blk_mq_tag_to_rq_bounds:
  assumes "tags_allocated tags"
  shows "(nr_tags tags \<le> tag \<longrightarrow> blk_mq_tag_to_rq tags tag = Loaded None)
       \<and> (tag < nr_tags tags \<longrightarrow> blk_mq_tag_to_rq tags tag = Loaded (rqs tags ! unat tag))
       \<and> blk_mq_tag_to_rq tags tag \<noteq> OutOfBounds"
proof -
  have in_range: "unat tag < length (rqs tags)" if "tag < nr_tags tags"
  proof -
    from that have "unat tag < unat (nr_tags tags)" by (simp add: word_less_nat_alt)
    with assms show ?thesis by (simp add: tags_allocated_def)
  qed
  show ?thesis
    using in_range by (auto simp: blk_mq_tag_to_rq_def array_load_def)
qed

theorem blk_mq_tag_to_rq_bounds_witness:
  "tags_allocated \<lparr> nr_tags = 2, nr_reserved_tags = 0, rqs = [Some (10::nat), None],
       bitmap_tags = [True, False] \<rparr>
   \<and> blk_mq_tag_to_rq \<lparr> nr_tags = 2, nr_reserved_tags = 0, rqs = [Some (10::nat), None],
       bitmap_tags = [True, False] \<rparr> 0 = Loaded (Some 10)
   \<and> blk_mq_tag_to_rq \<lparr> nr_tags = 2, nr_reserved_tags = 0, rqs = [Some (10::nat), None],
       bitmap_tags = [True, False] \<rparr> 2 = Loaded None
   \<and> blk_mq_tag_to_rq \<lparr> nr_tags = 2, nr_reserved_tags = 0, rqs = [Some (10::nat), None],
       bitmap_tags = [True, False] \<rparr> 7 \<noteq> OutOfBounds"
proof -
  have h: "tags_allocated \<lparr> nr_tags = 2, nr_reserved_tags = 0, rqs = [Some (10::nat), None],
       bitmap_tags = [True, False] \<rparr>"
    by (simp add: tags_allocated_def)
  show ?thesis
    using h blk_mq_tag_to_rq_bounds [OF h, of 0] blk_mq_tag_to_rq_bounds [OF h, of 2]
      blk_mq_tag_to_rq_bounds [OF h, of 7]
    by simp
qed


subsection \<open>Requests, software queues, hardware queues\<close>

text \<open>
  \<open>struct request\<close>, reduced to the fields blk-mq.c reads and writes in the functions
  below. \<open>rq_id\<close> stands for the address of the structure (its identity). \<open>mq_ctx\<close> is
  the pointer to the owning software queue, kept as the CPU number of that queue.
  \<open>tag\<close> and \<open>internal_tag\<close> are C \<open>int\<close>s holding a tag number or \<open>-1\<close>.
  \<open>atomic_flags\<close> is the \<open>unsigned long\<close> bit word with the bits \<open>REQ_ATOM_COMPLETE\<close>
  and \<open>REQ_ATOM_STARTED\<close>. \<open>req_mq_inflight\<close> is the \<open>REQ_MQ_INFLIGHT\<close> bit of
  \<open>cmd_flags\<close>, the only bit of that word these functions test.
\<close>

record request =
  rq_id :: nat
  mq_ctx :: nat
  tag :: int
  internal_tag :: int
  atomic_flags :: "64 word"
  req_mq_inflight :: bool
  errors :: int
  deadline :: "64 word"
  timeout :: "64 word"

text \<open>\<open>struct blk_mq_ctx\<close> (blk-mq.h): the per-CPU software queue.\<close>

record blk_mq_ctx =
  rq_list :: "request list"
  cpu :: nat
  index_hw :: nat

text \<open>
  \<open>struct blk_mq_hw_ctx\<close>. \<open>ctx_map\<close> is the pending bitmap (an \<open>sbitmap\<close> of depth
  \<open>nr_ctx\<close>), \<open>ctxs\<close> the array of pointers to the mapped software queues (each kept as
  the CPU number of the queue), \<open>dispatch\<close> the dispatch list. \<open>tag_shared\<close> is the
  \<open>BLK_MQ_F_TAG_SHARED\<close> bit of \<open>flags\<close>, \<open>sched_restart\<close> the \<open>BLK_MQ_S_SCHED_RESTART\<close>
  bit of \<open>state\<close>, \<open>dispatch_wait_queued\<close> says whether \<open>dispatch_wait\<close> sits on a wait
  queue (\<open>!list_empty(&dispatch_wait.task_list)\<close>). The arrays \<open>rqs\<close> of the two tag
  pools hold request identities.
\<close>

record blk_mq_hw_ctx =
  ctx_map :: "bool list"
  ctxs :: "nat list"
  dispatch :: "request list"
  dispatch_busy :: "32 word"
  tag_shared :: bool
  sched_restart :: bool
  dispatch_wait_queued :: bool
  nr_active :: int
  dispatched :: "nat list"
  tags :: "nat blk_mq_tags"
  sched_tags :: "nat blk_mq_tags"

text \<open>
  \<open>struct request_queue\<close>: the per-CPU software queues (\<open>queue_ctx\<close>, indexed by CPU),
  the hardware queues (\<open>queue_hw_ctx\<close>) and the CPU to hardware queue table \<open>mq_map\<close>.
  A pointer to a hardware queue is its index in \<open>queue_hw_ctx\<close>.
\<close>

record request_queue =
  queue_ctx :: "blk_mq_ctx list"
  queue_hw_ctx :: "blk_mq_hw_ctx list"
  mq_map :: "nat list"

subsection \<open>The pending bitmap and the software queue FIFOs\<close>

text \<open>
  Modelled from the spec: the \<open>sbitmap\<close> library (include/linux/sbitmap.h, lib/sbitmap.c)
  is not among the sources. The spec's words are "sets ctx's bit in hctx's
  pending-bitmap", "clears it" and "for every set bit in the pending-bitmap": a bitmap
  is a list of bits, \<open>sbitmap_for_each_set\<close> visits the set bits in ascending order and
  calls the callback on each until the callback returns false, and
  \<open>__sbitmap_for_each_set\<close> does the same starting at a given bit and wrapping around.
  A bit is tested when the walk reaches it.
\<close>

definition sbitmap_test_bit :: "bool list \<Rightarrow> nat \<Rightarrow> bool" where
  "sbitmap_test_bit sb bitnr = (bitnr < length sb \<and> sb ! bitnr)"

definition sbitmap_set_bit :: "bool list \<Rightarrow> nat \<Rightarrow> bool list" where
  "sbitmap_set_bit sb bitnr = sb[bitnr := True]"

definition sbitmap_clear_bit :: "bool list \<Rightarrow> nat \<Rightarrow> bool list" where
  "sbitmap_clear_bit sb bitnr = sb[bitnr := False]"

text \<open>
  The walk over a list of bit numbers; \<open>sb\<close> reads the bitmap out of the state the
  callback works on.
\<close>

fun sbitmap_walk :: "('s \<Rightarrow> bool list) \<Rightarrow> (nat \<Rightarrow> 's \<Rightarrow> bool \<times> 's) \<Rightarrow> nat list \<Rightarrow> 's \<Rightarrow> 's" where
  "sbitmap_walk sb fn [] s = s"
| "sbitmap_walk sb fn (bitnr # rest) s =
     (if sbitmap_test_bit (sb s) bitnr
      then (case fn bitnr s of
              (True, s') \<Rightarrow> sbitmap_walk sb fn rest s'
            | (False, s') \<Rightarrow> s')
      else sbitmap_walk sb fn rest s)"

definition sbitmap_for_each_set :: "('s \<Rightarrow> bool list) \<Rightarrow> (nat \<Rightarrow> 's \<Rightarrow> bool \<times> 's) \<Rightarrow> 's \<Rightarrow> 's" where
  "sbitmap_for_each_set sb fn s = sbitmap_walk sb fn [0 ..< length (sb s)] s"

definition sbitmap_for_each_set_from :: "('s \<Rightarrow> bool list) \<Rightarrow> nat \<Rightarrow> (nat \<Rightarrow> 's \<Rightarrow> bool \<times> 's) \<Rightarrow> 's \<Rightarrow> 's" where
  "sbitmap_for_each_set_from sb start fn s =
     (let depth = length (sb s); start' = (if start \<ge> depth then 0 else start)
      in sbitmap_walk sb fn ([start' ..< depth] @ [0 ..< start']) s)"

text \<open>
  Reading and writing through the pointers of the request queue: \<open>hctx_at q h\<close> is
  \<open>q->queue_hw_ctx[h]\<close>, \<open>ctx_at q c\<close> is \<open>per_cpu_ptr(q->queue_ctx, c)\<close>, and the three
  \<open>set_\<close> functions store one field of the structure a pointer leads to.
\<close>

definition hctx_at :: "request_queue \<Rightarrow> nat \<Rightarrow> blk_mq_hw_ctx" where
  "hctx_at q h = queue_hw_ctx q ! h"

definition ctx_at :: "request_queue \<Rightarrow> nat \<Rightarrow> blk_mq_ctx" where
  "ctx_at q c = queue_ctx q ! c"

definition set_ctx_map :: "request_queue \<Rightarrow> nat \<Rightarrow> bool list \<Rightarrow> request_queue" where
  "set_ctx_map q h m = q\<lparr>queue_hw_ctx := (queue_hw_ctx q)[h := (hctx_at q h)\<lparr>ctx_map := m\<rparr>]\<rparr>"

definition set_rq_list :: "request_queue \<Rightarrow> nat \<Rightarrow> request list \<Rightarrow> request_queue" where
  "set_rq_list q c l = q\<lparr>queue_ctx := (queue_ctx q)[c := (ctx_at q c)\<lparr>rq_list := l\<rparr>]\<rparr>"

definition set_dispatch :: "request_queue \<Rightarrow> nat \<Rightarrow> request list \<Rightarrow> request_queue" where
  "set_dispatch q h l = q\<lparr>queue_hw_ctx := (queue_hw_ctx q)[h := (hctx_at q h)\<lparr>dispatch := l\<rparr>]\<rparr>"

text \<open>
  \<^verbatim>\<open>
  static void blk_mq_hctx_mark_pending(struct blk_mq_hw_ctx *hctx, struct blk_mq_ctx *ctx)
  {
          if (!sbitmap_test_bit(&hctx->ctx_map, ctx->index_hw))
                  sbitmap_set_bit(&hctx->ctx_map, ctx->index_hw);
  }
  static void blk_mq_hctx_clear_pending(struct blk_mq_hw_ctx *hctx, struct blk_mq_ctx *ctx)
  {
          sbitmap_clear_bit(&hctx->ctx_map, ctx->index_hw);
  }
  \<close>
  The hardware queue is the index \<open>h\<close>, the software queue the CPU number \<open>c\<close>.
\<close>

definition blk_mq_hctx_mark_pending :: "request_queue \<Rightarrow> nat \<Rightarrow> nat \<Rightarrow> request_queue" where
  "blk_mq_hctx_mark_pending q h c =
     (if \<not> sbitmap_test_bit (ctx_map (hctx_at q h)) (index_hw (ctx_at q c))
      then set_ctx_map q h (sbitmap_set_bit (ctx_map (hctx_at q h)) (index_hw (ctx_at q c)))
      else q)"

definition blk_mq_hctx_clear_pending :: "request_queue \<Rightarrow> nat \<Rightarrow> nat \<Rightarrow> request_queue" where
  "blk_mq_hctx_clear_pending q h c =
     set_ctx_map q h (sbitmap_clear_bit (ctx_map (hctx_at q h)) (index_hw (ctx_at q c)))"

text \<open>
  \<open>__blk_mq_insert_req_list\<close>, \<open>__blk_mq_insert_request\<close> (the names lose their leading
  underscores) and \<open>blk_mq_insert_requests\<close>. The software queue is \<open>rq->mq_ctx\<close>;
  \<open>list_add\<close> puts the request at the head, \<open>list_add_tail\<close> at the tail, and
  \<open>list_splice_tail_init\<close> appends a whole list.
\<close>

definition blk_mq_insert_req_list :: "request_queue \<Rightarrow> request \<Rightarrow> bool \<Rightarrow> request_queue" where
  "blk_mq_insert_req_list q rq at_head =
     (let c = mq_ctx rq
      in if at_head then set_rq_list q c (rq # rq_list (ctx_at q c))
         else set_rq_list q c (rq_list (ctx_at q c) @ [rq]))"

definition blk_mq_insert_request :: "request_queue \<Rightarrow> nat \<Rightarrow> request \<Rightarrow> bool \<Rightarrow> request_queue" where
  "blk_mq_insert_request q h rq at_head =
     blk_mq_hctx_mark_pending (blk_mq_insert_req_list q rq at_head) h (mq_ctx rq)"

definition blk_mq_insert_requests :: "request_queue \<Rightarrow> nat \<Rightarrow> nat \<Rightarrow> request list \<Rightarrow> request_queue" where
  "blk_mq_insert_requests q h c l =
     blk_mq_hctx_mark_pending (set_rq_list q c (rq_list (ctx_at q c) @ l)) h c"

text \<open>
  \<^verbatim>\<open>
  static bool flush_busy_ctx(struct sbitmap *sb, unsigned int bitnr, void *data)
  {
          struct flush_busy_ctx_data *flush_data = data;
          struct blk_mq_hw_ctx *hctx = flush_data->hctx;
          struct blk_mq_ctx *ctx = hctx->ctxs[bitnr];

          spin_lock(&ctx->lock);
          list_splice_tail_init(&ctx->rq_list, flush_data->list);
          sbitmap_clear_bit(sb, bitnr);
          spin_unlock(&ctx->lock);
          return true;
  }
  void blk_mq_flush_busy_ctxs(struct blk_mq_hw_ctx *hctx, struct list_head *list)
  {
          ...
          sbitmap_for_each_set(&hctx->ctx_map, flush_busy_ctx, &data);
  }
  \<close>
  The state of the walk is the request queue and the output list.
\<close>

definition flush_busy_ctx :: "nat \<Rightarrow> nat \<Rightarrow> request_queue \<times> request list \<Rightarrow> bool \<times> request_queue \<times> request list" where
  "flush_busy_ctx h bitnr = (\<lambda>(q, l).
     (let c = ctxs (hctx_at q h) ! bitnr;
          l' = l @ rq_list (ctx_at q c);
          q1 = set_rq_list q c [];
          q2 = set_ctx_map q1 h (sbitmap_clear_bit (ctx_map (hctx_at q1 h)) bitnr)
      in (True, q2, l')))"

definition blk_mq_flush_busy_ctxs :: "request_queue \<Rightarrow> nat \<Rightarrow> request list \<Rightarrow> request_queue \<times> request list" where
  "blk_mq_flush_busy_ctxs q h l =
     sbitmap_for_each_set (\<lambda>(q, l). ctx_map (hctx_at q h)) (flush_busy_ctx h) (q, l)"

text \<open>
  \<^verbatim>\<open>
  static bool dispatch_rq_from_ctx(struct sbitmap *sb, unsigned int bitnr, void *data)
  {
          ...
          struct blk_mq_ctx *ctx = hctx->ctxs[bitnr];

          spin_lock(&ctx->lock);
          if (unlikely(!list_empty(&ctx->rq_list))) {
                  dispatch_data->rq = list_entry_rq(ctx->rq_list.next);
                  list_del_init(&dispatch_data->rq->queuelist);
                  if (list_empty(&ctx->rq_list))
                          sbitmap_clear_bit(sb, bitnr);
          }
          spin_unlock(&ctx->lock);
          return !dispatch_data->rq;
  }
  struct request *blk_mq_dequeue_from_ctx(struct blk_mq_hw_ctx *hctx, struct blk_mq_ctx *start)
  {
          unsigned off = start ? start->index_hw : 0;
          ...
          __sbitmap_for_each_set(&hctx->ctx_map, off, dispatch_rq_from_ctx, &data);
          return data.rq;
  }
  \<close>
\<close>

definition dispatch_rq_from_ctx :: "nat \<Rightarrow> nat \<Rightarrow> request_queue \<times> request option \<Rightarrow> bool \<times> request_queue \<times> request option" where
  "dispatch_rq_from_ctx h bitnr = (\<lambda>(q, rq).
     (let c = ctxs (hctx_at q h) ! bitnr
      in case rq_list (ctx_at q c) of
           [] \<Rightarrow> (rq = None, q, rq)
         | first # rest \<Rightarrow>
             (let q1 = set_rq_list q c rest;
                  q2 = (if rest = [] then set_ctx_map q1 h (sbitmap_clear_bit (ctx_map (hctx_at q1 h)) bitnr)
                        else q1)
              in (False, q2, Some first))))"

definition blk_mq_dequeue_from_ctx :: "request_queue \<Rightarrow> nat \<Rightarrow> nat option \<Rightarrow> request_queue \<times> request option" where
  "blk_mq_dequeue_from_ctx q h start =
     (let off = (case start of None \<Rightarrow> 0 | Some c \<Rightarrow> index_hw (ctx_at q c))
      in sbitmap_for_each_set_from (\<lambda>(q, rq). ctx_map (hctx_at q h)) off (dispatch_rq_from_ctx h) (q, None))"

text \<open>
  \<^verbatim>\<open>
  static int blk_mq_hctx_cpu_offline(struct blk_mq_hw_ctx *hctx, int cpu)
  {
          struct blk_mq_ctx *ctx;
          LIST_HEAD(tmp);

          ctx = __blk_mq_get_ctx(hctx->queue, cpu);

          spin_lock(&ctx->lock);
          if (!list_empty(&ctx->rq_list)) {
                  list_splice_init(&ctx->rq_list, &tmp);
                  blk_mq_hctx_clear_pending(hctx, ctx);
          }
          spin_unlock(&ctx->lock);

          if (list_empty(&tmp))
                  return NOTIFY_OK;

          spin_lock(&hctx->lock);
          list_splice_tail_init(&tmp, &hctx->dispatch);
          spin_unlock(&hctx->lock);

          blk_mq_run_hw_queue(hctx, true);
          return NOTIFY_OK;
  }
  \<close>
  \<open>blk_mq_init_hctx\<close> registers \<open>blk_mq_hctx_notify\<close> once for every hardware queue, and
  \<open>blk_mq_hctx_notify\<close> passes every \<open>CPU_DEAD\<close> event on without looking at the CPU:
  the function runs for every hardware queue of the device, whichever of them the dead
  CPU's software queue is mapped to. The queue run at the end is a separate activation
  of the dispatcher and is not followed here.
\<close>

definition blk_mq_hctx_cpu_offline :: "request_queue \<Rightarrow> nat \<Rightarrow> nat \<Rightarrow> request_queue" where
  "blk_mq_hctx_cpu_offline q h cpu_nr =
     (let tmp = rq_list (ctx_at q cpu_nr);
          q1 = (if rq_list (ctx_at q cpu_nr) \<noteq> []
                then blk_mq_hctx_clear_pending (set_rq_list q cpu_nr []) h cpu_nr
                else q)
      in if tmp = [] then q1
         else set_dispatch q1 h (dispatch (hctx_at q1 h) @ tmp))"

text \<open>
  What \<open>blk_mq_map_swqueue\<close> establishes: every hardware queue's bitmap has one bit per
  mapped software queue (\<open>sbitmap_resize(&hctx->ctx_map, hctx->nr_ctx)\<close>), slot \<open>b\<close> of
  \<open>ctxs\<close> points to a software queue whose \<open>index_hw\<close> is \<open>b\<close>
  (\<open>ctx->index_hw = hctx->nr_ctx; hctx->ctxs[hctx->nr_ctx++] = ctx\<close>) and whose CPU maps
  to that hardware queue (\<open>hctx = blk_mq_map_queue(q, i)\<close>).
\<close>

definition queue_wf :: "request_queue \<Rightarrow> bool" where
  "queue_wf q =
     (length (mq_map q) = length (queue_ctx q) \<and>
      (\<forall>h < length (queue_hw_ctx q).
         length (ctx_map (hctx_at q h)) = length (ctxs (hctx_at q h)) \<and>
         (\<forall>b < length (ctxs (hctx_at q h)).
             ctxs (hctx_at q h) ! b < length (queue_ctx q) \<and>
             index_hw (ctx_at q (ctxs (hctx_at q h) ! b)) = b \<and>
             mq_map q ! (ctxs (hctx_at q h) ! b) = h)))"

text \<open>
  The invariant of the data model: for every software queue mapped to a hardware queue,
  that hardware queue's pending bit at the queue's index is set if and only if the
  queue's FIFO is not empty.
\<close>

definition pending_inv :: "request_queue \<Rightarrow> bool" where
  "pending_inv q =
     (\<forall>h < length (queue_hw_ctx q). \<forall>b < length (ctxs (hctx_at q h)).
         sbitmap_test_bit (ctx_map (hctx_at q h)) b
           = (rq_list (ctx_at q (ctxs (hctx_at q h) ! b)) \<noteq> []))"



subsection \<open>Frame lemmas for the stores\<close>

lemma nth_list_update_if: "xs[i := x] ! j = (if j = i \<and> i < length xs then x else xs ! j)"
  by (cases "i < length xs") (auto simp: nth_list_update list_update_beyond)

lemma hctx_at_set_rq_list [simp]: "hctx_at (set_rq_list q c l) h = hctx_at q h"
  by (simp add: hctx_at_def set_rq_list_def)

lemma queue_hw_ctx_set_rq_list [simp]: "queue_hw_ctx (set_rq_list q c l) = queue_hw_ctx q"
  by (simp add: set_rq_list_def)

lemma length_queue_ctx_set_rq_list [simp]:
  "length (queue_ctx (set_rq_list q c l)) = length (queue_ctx q)"
  by (simp add: set_rq_list_def)

lemma mq_map_set_rq_list [simp]: "mq_map (set_rq_list q c l) = mq_map q"
  by (simp add: set_rq_list_def)

lemma index_hw_set_rq_list [simp]:
  "c' < length (queue_ctx q) \<Longrightarrow> index_hw (ctx_at (set_rq_list q c l) c') = index_hw (ctx_at q c')"
  by (simp add: set_rq_list_def ctx_at_def nth_list_update_if)

lemma rq_list_set_rq_list [simp]:
  "c' < length (queue_ctx q) \<Longrightarrow>
   rq_list (ctx_at (set_rq_list q c l) c') = (if c' = c then l else rq_list (ctx_at q c'))"
  by (simp add: set_rq_list_def ctx_at_def nth_list_update_if)

lemma ctx_at_set_ctx_map [simp]: "ctx_at (set_ctx_map q h m) c = ctx_at q c"
  by (simp add: ctx_at_def set_ctx_map_def)

lemma queue_ctx_set_ctx_map [simp]: "queue_ctx (set_ctx_map q h m) = queue_ctx q"
  by (simp add: set_ctx_map_def)

lemma length_queue_hw_ctx_set_ctx_map [simp]:
  "length (queue_hw_ctx (set_ctx_map q h m)) = length (queue_hw_ctx q)"
  by (simp add: set_ctx_map_def)

lemma mq_map_set_ctx_map [simp]: "mq_map (set_ctx_map q h m) = mq_map q"
  by (simp add: set_ctx_map_def)

lemma ctxs_set_ctx_map [simp]:
  "h' < length (queue_hw_ctx q) \<Longrightarrow> ctxs (hctx_at (set_ctx_map q h m) h') = ctxs (hctx_at q h')"
  by (simp add: set_ctx_map_def hctx_at_def nth_list_update_if)

lemma dispatch_set_ctx_map [simp]:
  "h' < length (queue_hw_ctx q) \<Longrightarrow>
   dispatch (hctx_at (set_ctx_map q h m) h') = dispatch (hctx_at q h')"
  by (simp add: set_ctx_map_def hctx_at_def nth_list_update_if)

lemma ctx_map_set_ctx_map [simp]:
  "h' < length (queue_hw_ctx q) \<Longrightarrow>
   ctx_map (hctx_at (set_ctx_map q h m) h') = (if h' = h then m else ctx_map (hctx_at q h'))"
  by (simp add: set_ctx_map_def hctx_at_def nth_list_update_if)

lemma ctx_at_set_dispatch [simp]: "ctx_at (set_dispatch q h l) c = ctx_at q c"
  by (simp add: ctx_at_def set_dispatch_def)

lemma queue_ctx_set_dispatch [simp]: "queue_ctx (set_dispatch q h l) = queue_ctx q"
  by (simp add: set_dispatch_def)

lemma length_queue_hw_ctx_set_dispatch [simp]:
  "length (queue_hw_ctx (set_dispatch q h l)) = length (queue_hw_ctx q)"
  by (simp add: set_dispatch_def)

lemma mq_map_set_dispatch [simp]: "mq_map (set_dispatch q h l) = mq_map q"
  by (simp add: set_dispatch_def)

lemma ctxs_set_dispatch [simp]:
  "h' < length (queue_hw_ctx q) \<Longrightarrow> ctxs (hctx_at (set_dispatch q h l) h') = ctxs (hctx_at q h')"
  by (simp add: set_dispatch_def hctx_at_def nth_list_update_if)

lemma ctx_map_set_dispatch [simp]:
  "h' < length (queue_hw_ctx q) \<Longrightarrow>
   ctx_map (hctx_at (set_dispatch q h l) h') = ctx_map (hctx_at q h')"
  by (simp add: set_dispatch_def hctx_at_def nth_list_update_if)

lemma sbitmap_test_clear [simp]:
  "sbitmap_test_bit (sbitmap_clear_bit sb b) b' = (sbitmap_test_bit sb b' \<and> b' \<noteq> b)"
  by (auto simp: sbitmap_test_bit_def sbitmap_clear_bit_def nth_list_update_if)

lemma sbitmap_test_set [simp]:
  "sbitmap_test_bit (sbitmap_set_bit sb b) b' = (b' < length sb \<and> (sbitmap_test_bit sb b' \<or> b' = b))"
  by (auto simp: sbitmap_test_bit_def sbitmap_set_bit_def nth_list_update_if)

lemma length_sbitmap_clear [simp]: "length (sbitmap_clear_bit sb b) = length sb"
  by (simp add: sbitmap_clear_bit_def)

lemma length_sbitmap_set [simp]: "length (sbitmap_set_bit sb b) = length sb"
  by (simp add: sbitmap_set_bit_def)

text \<open>Under \<open>queue_wf\<close> a software queue sits in one slot of one hardware queue.\<close>

lemma queue_wf_slot_unique:
  assumes "queue_wf q" "h < length (queue_hw_ctx q)" "b < length (ctxs (hctx_at q h))"
    "h' < length (queue_hw_ctx q)" "b' < length (ctxs (hctx_at q h'))"
    "ctxs (hctx_at q h') ! b' = ctxs (hctx_at q h) ! b"
  shows "h' = h \<and> b' = b"
  using assms unfolding queue_wf_def by metis

lemma queue_wf_ctx_in_range:
  "queue_wf q \<Longrightarrow> h < length (queue_hw_ctx q) \<Longrightarrow> b < length (ctxs (hctx_at q h)) \<Longrightarrow>
   ctxs (hctx_at q h) ! b < length (queue_ctx q)"
  unfolding queue_wf_def by blast

lemma queue_wf_map_length:
  "queue_wf q \<Longrightarrow> h < length (queue_hw_ctx q) \<Longrightarrow>
   length (ctx_map (hctx_at q h)) = length (ctxs (hctx_at q h))"
  unfolding queue_wf_def by blast

lemma queue_wf_set_rq_list: "queue_wf q \<Longrightarrow> queue_wf (set_rq_list q c l)"
  unfolding queue_wf_def by simp

lemma queue_wf_set_ctx_map:
  "queue_wf q \<Longrightarrow> h < length (queue_hw_ctx q) \<Longrightarrow> length m = length (ctx_map (hctx_at q h)) \<Longrightarrow>
   queue_wf (set_ctx_map q h m)"
  unfolding queue_wf_def by simp

lemma queue_wf_set_dispatch: "queue_wf q \<Longrightarrow> queue_wf (set_dispatch q h l)"
  unfolding queue_wf_def by simp


subsection \<open>The operations keep the pending invariant\<close>

lemma sbitmap_walk_preserves:
  assumes "P s" and step: "\<And>b s. P s \<Longrightarrow> sbitmap_test_bit (sb s) b \<Longrightarrow> P (snd (fn b s))"
  shows "P (sbitmap_walk sb fn bs s)"
  using assms(1)
proof (induction bs arbitrary: s)
  case Nil
  then show ?case by simp
next
  case (Cons b bs)
  show ?case
  proof (cases "sbitmap_test_bit (sb s) b")
    case False
    with Cons show ?thesis by simp
  next
    case True
    from step [OF Cons.prems True] have "P (snd (fn b s))" .
    with Cons.IH [of "snd (fn b s)"] True show ?thesis
      by (cases "fn b s") (auto split: bool.splits)
  qed
qed

text \<open>
  \<open>slot_owner q h c\<close>: hardware queue \<open>h\<close> is the one software queue \<open>c\<close> is mapped to,
  at the slot \<open>index_hw\<close> of \<open>c\<close>.
\<close>

definition slot_owner :: "request_queue \<Rightarrow> nat \<Rightarrow> nat \<Rightarrow> bool" where
  "slot_owner q h c =
     (h < length (queue_hw_ctx q) \<and> c < length (queue_ctx q) \<and>
      index_hw (ctx_at q c) < length (ctxs (hctx_at q h)) \<and>
      ctxs (hctx_at q h) ! index_hw (ctx_at q c) = c)"

lemma slot_unique_iff:
  assumes "queue_wf q" "h < length (queue_hw_ctx q)" "b < length (ctxs (hctx_at q h))"
    "h' < length (queue_hw_ctx q)" "b' < length (ctxs (hctx_at q h'))"
  shows "(ctxs (hctx_at q h') ! b' = ctxs (hctx_at q h) ! b) = (h' = h \<and> b' = b)"
  using queue_wf_slot_unique [OF assms] by auto

lemma drain_slot_pending_inv:
  assumes wf: "queue_wf q" and inv: "pending_inv q" and h: "h < length (queue_hw_ctx q)"
    and b: "b < length (ctxs (hctx_at q h))"
  shows "pending_inv (set_ctx_map (set_rq_list q (ctxs (hctx_at q h) ! b) []) h
           (sbitmap_clear_bit (ctx_map (hctx_at q h)) b))"
  unfolding pending_inv_def
proof (intro allI impI)
  fix h' b'
  let ?q' = "set_ctx_map (set_rq_list q (ctxs (hctx_at q h) ! b) []) h
           (sbitmap_clear_bit (ctx_map (hctx_at q h)) b)"
  assume h': "h' < length (queue_hw_ctx ?q')" and b': "b' < length (ctxs (hctx_at ?q' h'))"
  then have h'': "h' < length (queue_hw_ctx q)" and b'': "b' < length (ctxs (hctx_at q h'))"
    by simp_all
  have c': "ctxs (hctx_at q h') ! b' < length (queue_ctx q)"
    using queue_wf_ctx_in_range [OF wf h'' b''] .
  have old: "sbitmap_test_bit (ctx_map (hctx_at q h')) b'
       = (rq_list (ctx_at q (ctxs (hctx_at q h') ! b')) \<noteq> [])"
    using inv h'' b'' unfolding pending_inv_def by blast
  show "sbitmap_test_bit (ctx_map (hctx_at ?q' h')) b'
       = (rq_list (ctx_at ?q' (ctxs (hctx_at ?q' h') ! b')) \<noteq> [])"
    using old c' h'' slot_unique_iff [OF wf h b h'' b''] by auto
qed

lemma flush_busy_ctx_keeps:
  assumes "queue_wf q" "pending_inv q" "h < length (queue_hw_ctx q)"
    "sbitmap_test_bit (ctx_map (hctx_at q h)) b"
  shows "queue_wf (fst (snd (flush_busy_ctx h b (q, l))))
       \<and> pending_inv (fst (snd (flush_busy_ctx h b (q, l))))
       \<and> length (queue_hw_ctx (fst (snd (flush_busy_ctx h b (q, l))))) = length (queue_hw_ctx q)"
proof -
  have b: "b < length (ctxs (hctx_at q h))"
    using assms(4) queue_wf_map_length [OF assms(1,3)] by (simp add: sbitmap_test_bit_def)
  show ?thesis
    using drain_slot_pending_inv [OF assms(1,2,3) b] assms(1,3)
    by (simp add: flush_busy_ctx_def Let_def queue_wf_set_ctx_map queue_wf_set_rq_list)
qed

lemma blk_mq_flush_busy_ctxs_pending_inv:
  assumes "queue_wf q" "pending_inv q" "h < length (queue_hw_ctx q)"
  shows "queue_wf (fst (blk_mq_flush_busy_ctxs q h l)) \<and> pending_inv (fst (blk_mq_flush_busy_ctxs q h l))"
proof -
  let ?P = "\<lambda>s :: request_queue \<times> request list. queue_wf (fst s) \<and> pending_inv (fst s)
               \<and> length (queue_hw_ctx (fst s)) = length (queue_hw_ctx q)"
  have "?P (sbitmap_walk (\<lambda>(q, l). ctx_map (hctx_at q h)) (flush_busy_ctx h) bs (q, l))" for bs
  proof (rule sbitmap_walk_preserves [where P = ?P])
    show "?P (q, l)" using assms by simp
  next
    fix b s
    assume "?P s" and "sbitmap_test_bit ((\<lambda>(q, l). ctx_map (hctx_at q h)) s) b"
    then show "?P (snd (flush_busy_ctx h b s))"
      using flush_busy_ctx_keeps [of "fst s" h b "snd s"] assms(3)
      by (cases s) simp
  qed
  then show ?thesis
    by (simp add: blk_mq_flush_busy_ctxs_def sbitmap_for_each_set_def)
qed


lemma set_ctx_map_same:
  "h < length (queue_hw_ctx q) \<Longrightarrow> set_ctx_map q h (ctx_map (hctx_at q h)) = q"
  by (simp add: set_ctx_map_def hctx_at_def)

lemma pending_inv_update_slot:
  assumes wf: "queue_wf q" and inv: "pending_inv q" and h: "h < length (queue_hw_ctx q)"
    and b: "b < length (ctxs (hctx_at q h))"
    and others: "\<And>b'. b' \<noteq> b \<Longrightarrow> sbitmap_test_bit m b' = sbitmap_test_bit (ctx_map (hctx_at q h)) b'"
    and slot: "sbitmap_test_bit m b = (l \<noteq> [])"
  shows "pending_inv (set_ctx_map (set_rq_list q (ctxs (hctx_at q h) ! b) l) h m)"
  unfolding pending_inv_def
proof (intro allI impI)
  fix h' b'
  let ?q' = "set_ctx_map (set_rq_list q (ctxs (hctx_at q h) ! b) l) h m"
  assume h': "h' < length (queue_hw_ctx ?q')" and b': "b' < length (ctxs (hctx_at ?q' h'))"
  then have h'': "h' < length (queue_hw_ctx q)" and b'': "b' < length (ctxs (hctx_at q h'))"
    by simp_all
  have c': "ctxs (hctx_at q h') ! b' < length (queue_ctx q)"
    using queue_wf_ctx_in_range [OF wf h'' b''] .
  have old: "sbitmap_test_bit (ctx_map (hctx_at q h')) b'
       = (rq_list (ctx_at q (ctxs (hctx_at q h') ! b')) \<noteq> [])"
    using inv h'' b'' unfolding pending_inv_def by blast
  show "sbitmap_test_bit (ctx_map (hctx_at ?q' h')) b'
       = (rq_list (ctx_at ?q' (ctxs (hctx_at ?q' h') ! b')) \<noteq> [])"
    using old c' h'' slot_unique_iff [OF wf h b h'' b''] others [of b'] slot by auto
qed

lemma pending_inv_set_dispatch: "pending_inv q \<Longrightarrow> pending_inv (set_dispatch q h l)"
  unfolding pending_inv_def by simp

lemma dispatch_rq_from_ctx_keeps:
  assumes wf: "queue_wf q" and inv: "pending_inv q" and h: "h < length (queue_hw_ctx q)"
    and t: "sbitmap_test_bit (ctx_map (hctx_at q h)) b"
  shows "queue_wf (fst (snd (dispatch_rq_from_ctx h b (q, r))))
       \<and> pending_inv (fst (snd (dispatch_rq_from_ctx h b (q, r))))
       \<and> length (queue_hw_ctx (fst (snd (dispatch_rq_from_ctx h b (q, r))))) = length (queue_hw_ctx q)"
proof -
  have b: "b < length (ctxs (hctx_at q h))"
    using t queue_wf_map_length [OF wf h] by (simp add: sbitmap_test_bit_def)
  let ?c = "ctxs (hctx_at q h) ! b"
  show ?thesis
  proof (cases "rq_list (ctx_at q ?c)")
    case Nil
    then show ?thesis using wf inv by (simp add: dispatch_rq_from_ctx_def)
  next
    case (Cons first rest)
    show ?thesis
    proof (cases "rest = []")
      case True
      have "pending_inv (set_ctx_map (set_rq_list q ?c []) h
              (sbitmap_clear_bit (ctx_map (hctx_at q h)) b))"
        by (rule pending_inv_update_slot [OF wf inv h b]) simp_all
      then show ?thesis
        using Cons True wf h
        by (simp add: dispatch_rq_from_ctx_def queue_wf_set_ctx_map queue_wf_set_rq_list)
    next
      case False
      have "pending_inv (set_ctx_map (set_rq_list q ?c rest) h (ctx_map (hctx_at q h)))"
        by (rule pending_inv_update_slot [OF wf inv h b]) (use t False in simp_all)
      moreover have "set_ctx_map (set_rq_list q ?c rest) h (ctx_map (hctx_at q h))
          = set_rq_list q ?c rest"
        using set_ctx_map_same [of h "set_rq_list q ?c rest"] h by simp
      ultimately show ?thesis
        using Cons False wf
        by (simp add: dispatch_rq_from_ctx_def queue_wf_set_rq_list)
    qed
  qed
qed

lemma blk_mq_dequeue_from_ctx_pending_inv:
  assumes "queue_wf q" "pending_inv q" "h < length (queue_hw_ctx q)"
  shows "queue_wf (fst (blk_mq_dequeue_from_ctx q h start))
       \<and> pending_inv (fst (blk_mq_dequeue_from_ctx q h start))"
proof -
  let ?P = "\<lambda>s :: request_queue \<times> request option. queue_wf (fst s) \<and> pending_inv (fst s)
               \<and> length (queue_hw_ctx (fst s)) = length (queue_hw_ctx q)"
  have "?P (sbitmap_walk (\<lambda>(q, rq). ctx_map (hctx_at q h)) (dispatch_rq_from_ctx h) bs (q, None))" for bs
  proof (rule sbitmap_walk_preserves [where P = ?P])
    show "?P (q, None)" using assms by simp
  next
    fix b s
    assume "?P s" and "sbitmap_test_bit ((\<lambda>(q, rq). ctx_map (hctx_at q h)) s) b"
    then show "?P (snd (dispatch_rq_from_ctx h b s))"
      using dispatch_rq_from_ctx_keeps [of "fst s" h b "snd s"] assms(3)
      by (cases s) simp
  qed
  then show ?thesis
    by (simp add: blk_mq_dequeue_from_ctx_def sbitmap_for_each_set_from_def Let_def)
qed

lemma blk_mq_insert_request_pending_inv:
  assumes wf: "queue_wf q" and inv: "pending_inv q" and own: "slot_owner q h (mq_ctx rq)"
  shows "queue_wf (blk_mq_insert_request q h rq at_head)
       \<and> pending_inv (blk_mq_insert_request q h rq at_head)"
proof -
  let ?c = "mq_ctx rq"
  let ?b = "index_hw (ctx_at q ?c)"
  let ?l = "if at_head then rq # rq_list (ctx_at q ?c) else rq_list (ctx_at q ?c) @ [rq]"
  from own have h: "h < length (queue_hw_ctx q)" and c: "?c < length (queue_ctx q)"
    and b: "?b < length (ctxs (hctx_at q h))" and slot: "ctxs (hctx_at q h) ! ?b = ?c"
    by (simp_all add: slot_owner_def)
  have len: "length (ctx_map (hctx_at q h)) = length (ctxs (hctx_at q h))"
    by (rule queue_wf_map_length [OF wf h])
  have q1: "blk_mq_insert_req_list q rq at_head = set_rq_list q ?c ?l"
    by (simp add: blk_mq_insert_req_list_def Let_def)
  show ?thesis
  proof (cases "sbitmap_test_bit (ctx_map (hctx_at q h)) ?b")
    case True
    have "pending_inv (set_ctx_map (set_rq_list q (ctxs (hctx_at q h) ! ?b) ?l) h (ctx_map (hctx_at q h)))"
      by (rule pending_inv_update_slot [OF wf inv h b]) (use True in simp_all)
    moreover have "set_ctx_map (set_rq_list q ?c ?l) h (ctx_map (hctx_at q h)) = set_rq_list q ?c ?l"
      using set_ctx_map_same [of h "set_rq_list q ?c ?l"] h by simp
    ultimately show ?thesis
      using True c wf slot
      by (simp add: blk_mq_insert_request_def blk_mq_hctx_mark_pending_def q1 queue_wf_set_rq_list)
  next
    case False
    have "pending_inv (set_ctx_map (set_rq_list q (ctxs (hctx_at q h) ! ?b) ?l) h
            (sbitmap_set_bit (ctx_map (hctx_at q h)) ?b))"
      by (rule pending_inv_update_slot [OF wf inv h b]) (use b len in \<open>auto simp: sbitmap_test_bit_def sbitmap_set_bit_def nth_list_update\<close>)
    then show ?thesis
      using False c wf slot h
      by (simp add: blk_mq_insert_request_def blk_mq_hctx_mark_pending_def q1
          queue_wf_set_rq_list queue_wf_set_ctx_map)
  qed
qed

lemma blk_mq_hctx_cpu_offline_pending_inv:
  assumes wf: "queue_wf q" and inv: "pending_inv q" and own: "slot_owner q h c"
  shows "queue_wf (blk_mq_hctx_cpu_offline q h c) \<and> pending_inv (blk_mq_hctx_cpu_offline q h c)"
proof -
  let ?b = "index_hw (ctx_at q c)"
  from own have h: "h < length (queue_hw_ctx q)" and c: "c < length (queue_ctx q)"
    and b: "?b < length (ctxs (hctx_at q h))" and slot: "ctxs (hctx_at q h) ! ?b = c"
    by (simp_all add: slot_owner_def)
  show ?thesis
  proof (cases "rq_list (ctx_at q c) = []")
    case True
    then show ?thesis using wf inv by (simp add: blk_mq_hctx_cpu_offline_def)
  next
    case False
    have "pending_inv (set_ctx_map (set_rq_list q (ctxs (hctx_at q h) ! ?b) []) h
            (sbitmap_clear_bit (ctx_map (hctx_at q h)) ?b))"
      by (rule pending_inv_update_slot [OF wf inv h b]) simp_all
    then show ?thesis
      using False c wf slot h
      by (simp add: blk_mq_hctx_cpu_offline_def blk_mq_hctx_clear_pending_def Let_def
          queue_wf_set_rq_list queue_wf_set_ctx_map queue_wf_set_dispatch pending_inv_set_dispatch)
  qed
qed


text \<open>
  Concrete queues for the examples: \<open>example_rq i c\<close> is request \<open>i\<close> of software queue \<open>c\<close>, and
  \<open>example_hctx m cs\<close> a hardware queue with pending bitmap \<open>m\<close> and software queues
  \<open>cs\<close>, otherwise as \<open>kzalloc_node\<close> and \<open>blk_mq_init_hctx\<close> leave it.
\<close>

definition example_rq :: "nat \<Rightarrow> nat \<Rightarrow> request" where
  "example_rq i c = \<lparr> rq_id = i, mq_ctx = c, tag = int i, internal_tag = -1, atomic_flags = 0,
      req_mq_inflight = False, errors = 0, deadline = 0, timeout = 0 \<rparr>"

definition example_hctx :: "bool list \<Rightarrow> nat list \<Rightarrow> blk_mq_hw_ctx" where
  "example_hctx m cs = \<lparr> ctx_map = m, ctxs = cs, dispatch = [], dispatch_busy = 0,
      tag_shared = False, sched_restart = False, dispatch_wait_queued = False, nr_active = 0,
      dispatched = replicate 7 0, tags = blk_mq_alloc_rq_map 8 0,
      sched_tags = blk_mq_alloc_rq_map 8 0 \<rparr>"

lemma blk_mq_insert_requests_pending_inv:
  assumes wf: "queue_wf q" and inv: "pending_inv q" and own: "slot_owner q h c" and l: "l \<noteq> []"
  shows "queue_wf (blk_mq_insert_requests q h c l) \<and> pending_inv (blk_mq_insert_requests q h c l)"
proof -
  let ?b = "index_hw (ctx_at q c)"
  let ?l = "rq_list (ctx_at q c) @ l"
  from own have h: "h < length (queue_hw_ctx q)" and c: "c < length (queue_ctx q)"
    and b: "?b < length (ctxs (hctx_at q h))" and slot: "ctxs (hctx_at q h) ! ?b = c"
    by (simp_all add: slot_owner_def)
  have len: "length (ctx_map (hctx_at q h)) = length (ctxs (hctx_at q h))"
    by (rule queue_wf_map_length [OF wf h])
  show ?thesis
  proof (cases "sbitmap_test_bit (ctx_map (hctx_at q h)) ?b")
    case True
    have "pending_inv (set_ctx_map (set_rq_list q (ctxs (hctx_at q h) ! ?b) ?l) h (ctx_map (hctx_at q h)))"
      by (rule pending_inv_update_slot [OF wf inv h b]) (use True l in simp_all)
    moreover have "set_ctx_map (set_rq_list q c ?l) h (ctx_map (hctx_at q h)) = set_rq_list q c ?l"
      using set_ctx_map_same [of h "set_rq_list q c ?l"] h by simp
    ultimately show ?thesis
      using True c wf slot
      by (simp add: blk_mq_insert_requests_def blk_mq_hctx_mark_pending_def queue_wf_set_rq_list)
  next
    case False
    have "pending_inv (set_ctx_map (set_rq_list q (ctxs (hctx_at q h) ! ?b) ?l) h
            (sbitmap_set_bit (ctx_map (hctx_at q h)) ?b))"
      by (rule pending_inv_update_slot [OF wf inv h b])
        (use b len l in \<open>auto simp: sbitmap_test_bit_def sbitmap_set_bit_def nth_list_update\<close>)
    then show ?thesis
      using False c wf slot h
      by (simp add: blk_mq_insert_requests_def blk_mq_hctx_mark_pending_def
          queue_wf_set_rq_list queue_wf_set_ctx_map)
  qed
qed

text \<open>
  The lemmas above cover the single insertion, the bulk insertion of a non-empty list,
  the flush, the single dequeue, and the CPU-offline drain when it runs for the hardware
  queue that owns the dead CPU's software queue. The drain also runs for every other
  hardware queue of the device (see \<open>blk_mq_hctx_cpu_offline\<close> above), and there it
  clears a bit of a bitmap the software queue does not belong to.

  A device with two hardware queues, CPU 0 mapped to hardware queue 0 and CPU 1 to
  hardware queue 1, one request queued on each CPU. Both software queues sit at slot 0 of
  their hardware queue.
\<close>

definition two_hctx_queue :: request_queue where
  "two_hctx_queue =
     \<lparr> queue_ctx = [\<lparr> rq_list = [example_rq 0 0], cpu = 0, index_hw = 0 \<rparr>,
                    \<lparr> rq_list = [example_rq 1 1], cpu = 1, index_hw = 0 \<rparr>],
       queue_hw_ctx = [example_hctx [True] [0], example_hctx [True] [1]],
       mq_map = [0, 1] \<rparr>"

lemma two_hctx_queue_consistent: "queue_wf two_hctx_queue \<and> pending_inv two_hctx_queue"
  by code_simp

text \<open>
  C9. The invariant (pending bit set if and only if the FIFO is not empty) does not
  survive the CPU-offline drain: when CPU 1 dies and the notifier of hardware queue 0
  runs, \<open>blk_mq_hctx_cpu_offline\<close> empties the FIFO of CPU 1 and clears bit 0 of hardware
  queue 0. Afterwards bit 0 of hardware queue 0 is clear although the FIFO of its
  software queue (CPU 0) still holds request 0, and bit 0 of hardware queue 1 is set
  although the FIFO of its software queue (CPU 1) is empty.
\<close>

theorem blk_mq_hctx_cpu_offline_other_hctx:
  "sbitmap_test_bit (ctx_map (hctx_at two_hctx_queue 0)) 0
   \<and> map rq_id (rq_list (ctx_at two_hctx_queue 0)) = [0]
   \<and> sbitmap_test_bit (ctx_map (hctx_at two_hctx_queue 1)) 0
   \<and> map rq_id (rq_list (ctx_at two_hctx_queue 1)) = [1]
   \<and> \<not> sbitmap_test_bit (ctx_map (hctx_at (blk_mq_hctx_cpu_offline two_hctx_queue 0 1) 0)) 0
   \<and> map rq_id (rq_list (ctx_at (blk_mq_hctx_cpu_offline two_hctx_queue 0 1) 0)) = [0]
   \<and> sbitmap_test_bit (ctx_map (hctx_at (blk_mq_hctx_cpu_offline two_hctx_queue 0 1) 1)) 0
   \<and> rq_list (ctx_at (blk_mq_hctx_cpu_offline two_hctx_queue 0 1) 1) = []
   \<and> map rq_id (dispatch (hctx_at (blk_mq_hctx_cpu_offline two_hctx_queue 0 1) 0)) = [1]"
  by code_simp

lemma blk_mq_hctx_cpu_offline_breaks_pending_inv:
  "\<not> pending_inv (blk_mq_hctx_cpu_offline two_hctx_queue 0 1)"
  by code_simp

subsection \<open>The batch flushed by \<open>blk_mq_flush_busy_ctxs\<close>\<close>

text \<open>
  \<open>fifo_of q h b\<close> is the FIFO of the software queue at slot \<open>b\<close> of hardware queue
  \<open>h\<close>; \<open>pending_bits q h\<close> lists the set bits of its pending bitmap in ascending order.
\<close>

definition fifo_of :: "request_queue \<Rightarrow> nat \<Rightarrow> nat \<Rightarrow> request list" where
  "fifo_of q h b = rq_list (ctx_at q (ctxs (hctx_at q h) ! b))"

definition pending_bits :: "request_queue \<Rightarrow> nat \<Rightarrow> nat list" where
  "pending_bits q h =
     filter (sbitmap_test_bit (ctx_map (hctx_at q h))) [0 ..< length (ctx_map (hctx_at q h))]"

lemma flush_busy_ctx_step:
  assumes wf: "queue_wf q" and h: "h < length (queue_hw_ctx q)"
    and t: "sbitmap_test_bit (ctx_map (hctx_at q h)) b"
  obtains q1 where "flush_busy_ctx h b (q, l) = (True, q1, l @ fifo_of q h b)"
    and "queue_wf q1" and "length (queue_hw_ctx q1) = length (queue_hw_ctx q)"
    and "ctxs (hctx_at q1 h) = ctxs (hctx_at q h)"
    and "length (ctx_map (hctx_at q1 h)) = length (ctx_map (hctx_at q h))"
    and "\<And>b'. sbitmap_test_bit (ctx_map (hctx_at q1 h)) b'
           = (sbitmap_test_bit (ctx_map (hctx_at q h)) b' \<and> b' \<noteq> b)"
    and "\<And>b'. b' < length (ctxs (hctx_at q h)) \<Longrightarrow>
           fifo_of q1 h b' = (if b' = b then [] else fifo_of q h b')"
proof -
  have b: "b < length (ctxs (hctx_at q h))"
    using t queue_wf_map_length [OF wf h] by (simp add: sbitmap_test_bit_def)
  let ?c = "ctxs (hctx_at q h) ! b"
  let ?q1 = "set_ctx_map (set_rq_list q ?c []) h (sbitmap_clear_bit (ctx_map (hctx_at q h)) b)"
  have c: "?c < length (queue_ctx q)" by (rule queue_wf_ctx_in_range [OF wf h b])
  have fifo: "fifo_of ?q1 h b' = (if b' = b then [] else fifo_of q h b')"
    if "b' < length (ctxs (hctx_at q h))" for b'
    using that h queue_wf_ctx_in_range [OF wf h that] slot_unique_iff [OF wf h b h that]
    by (simp add: fifo_of_def)
  show ?thesis
  proof (rule that [of ?q1])
    show "flush_busy_ctx h b (q, l) = (True, ?q1, l @ fifo_of q h b)"
      by (simp add: flush_busy_ctx_def fifo_of_def Let_def)
    show "queue_wf ?q1" using wf h by (simp add: queue_wf_set_ctx_map queue_wf_set_rq_list)
  qed (use h fifo in simp_all)
qed

lemma flush_walk_exact:
  assumes "queue_wf q" "h < length (queue_hw_ctx q)" "distinct bs"
  shows "\<exists>q'. sbitmap_walk (\<lambda>(q, l). ctx_map (hctx_at q h)) (flush_busy_ctx h) bs (q, l)
          = (q', l @ concat (map (fifo_of q h) (filter (sbitmap_test_bit (ctx_map (hctx_at q h))) bs)))
       \<and> (\<forall>b'. sbitmap_test_bit (ctx_map (hctx_at q' h)) b'
             = (sbitmap_test_bit (ctx_map (hctx_at q h)) b' \<and> b' \<notin> set bs))
       \<and> (\<forall>b' < length (ctxs (hctx_at q h)).
             fifo_of q' h b' = (if b' \<in> set bs \<and> sbitmap_test_bit (ctx_map (hctx_at q h)) b' then []
                                else fifo_of q h b'))"
  using assms
proof (induction bs arbitrary: q l)
  case Nil
  then show ?case by simp
next
  case (Cons b bs)
  note wf = Cons.prems(1) and h = Cons.prems(2)
  from Cons.prems(3) have nb: "b \<notin> set bs" and dist: "distinct bs" by simp_all
  show ?case
  proof (cases "sbitmap_test_bit (ctx_map (hctx_at q h)) b")
    case False
    from Cons.IH [OF wf h dist, of l] obtain q' where
      w: "sbitmap_walk (\<lambda>(q, l). ctx_map (hctx_at q h)) (flush_busy_ctx h) bs (q, l)
          = (q', l @ concat (map (fifo_of q h) (filter (sbitmap_test_bit (ctx_map (hctx_at q h))) bs)))"
      and bits: "\<forall>b'. sbitmap_test_bit (ctx_map (hctx_at q' h)) b'
             = (sbitmap_test_bit (ctx_map (hctx_at q h)) b' \<and> b' \<notin> set bs)"
      and fifos: "\<forall>b' < length (ctxs (hctx_at q h)).
             fifo_of q' h b' = (if b' \<in> set bs \<and> sbitmap_test_bit (ctx_map (hctx_at q h)) b' then []
                                else fifo_of q h b')"
      by blast
    show ?thesis
    proof (intro exI conjI)
      show "sbitmap_walk (\<lambda>(q, l). ctx_map (hctx_at q h)) (flush_busy_ctx h) (b # bs) (q, l)
          = (q', l @ concat (map (fifo_of q h) (filter (sbitmap_test_bit (ctx_map (hctx_at q h))) (b # bs))))"
        using False w by simp
      show "\<forall>b'. sbitmap_test_bit (ctx_map (hctx_at q' h)) b'
             = (sbitmap_test_bit (ctx_map (hctx_at q h)) b' \<and> b' \<notin> set (b # bs))"
        using False bits by auto
      show "\<forall>b' < length (ctxs (hctx_at q h)).
             fifo_of q' h b' = (if b' \<in> set (b # bs) \<and> sbitmap_test_bit (ctx_map (hctx_at q h)) b' then []
                                else fifo_of q h b')"
        using False fifos by auto
    qed
  next
    case True
    obtain q1 where step: "flush_busy_ctx h b (q, l) = (True, q1, l @ fifo_of q h b)"
      and wf1: "queue_wf q1" and len1: "length (queue_hw_ctx q1) = length (queue_hw_ctx q)"
      and ctxs1: "ctxs (hctx_at q1 h) = ctxs (hctx_at q h)"
      and bits1: "\<And>b'. sbitmap_test_bit (ctx_map (hctx_at q1 h)) b'
           = (sbitmap_test_bit (ctx_map (hctx_at q h)) b' \<and> b' \<noteq> b)"
      and fifo1: "\<And>b'. b' < length (ctxs (hctx_at q h)) \<Longrightarrow>
           fifo_of q1 h b' = (if b' = b then [] else fifo_of q h b')"
      by (rule flush_busy_ctx_step [OF wf h True, of l]) blast
    have h1: "h < length (queue_hw_ctx q1)" using h len1 by simp
    from Cons.IH [OF wf1 h1 dist, of "l @ fifo_of q h b"] obtain q' where
      w: "sbitmap_walk (\<lambda>(q, l). ctx_map (hctx_at q h)) (flush_busy_ctx h) bs (q1, l @ fifo_of q h b)
          = (q', (l @ fifo_of q h b)
               @ concat (map (fifo_of q1 h) (filter (sbitmap_test_bit (ctx_map (hctx_at q1 h))) bs)))"
      and bits: "\<forall>b'. sbitmap_test_bit (ctx_map (hctx_at q' h)) b'
             = (sbitmap_test_bit (ctx_map (hctx_at q1 h)) b' \<and> b' \<notin> set bs)"
      and fifos: "\<forall>b' < length (ctxs (hctx_at q1 h)).
             fifo_of q' h b' = (if b' \<in> set bs \<and> sbitmap_test_bit (ctx_map (hctx_at q1 h)) b' then []
                                else fifo_of q1 h b')"
      by blast
    have filt: "filter (sbitmap_test_bit (ctx_map (hctx_at q1 h))) bs
        = filter (sbitmap_test_bit (ctx_map (hctx_at q h))) bs"
      using nb by (intro filter_cong) (auto simp: bits1)
    have inr: "b' < length (ctxs (hctx_at q h))"
      if "sbitmap_test_bit (ctx_map (hctx_at q h)) b'" for b'
      using that queue_wf_map_length [OF wf h] by (simp add: sbitmap_test_bit_def)
    have mp: "map (fifo_of q1 h) (filter (sbitmap_test_bit (ctx_map (hctx_at q h))) bs)
        = map (fifo_of q h) (filter (sbitmap_test_bit (ctx_map (hctx_at q h))) bs)"
      using nb by (intro map_cong) (auto simp: fifo1 inr)
    show ?thesis
    proof (intro exI conjI)
      show "sbitmap_walk (\<lambda>(q, l). ctx_map (hctx_at q h)) (flush_busy_ctx h) (b # bs) (q, l)
          = (q', l @ concat (map (fifo_of q h) (filter (sbitmap_test_bit (ctx_map (hctx_at q h))) (b # bs))))"
        using True step w by (simp add: filt mp)
      show "\<forall>b'. sbitmap_test_bit (ctx_map (hctx_at q' h)) b'
             = (sbitmap_test_bit (ctx_map (hctx_at q h)) b' \<and> b' \<notin> set (b # bs))"
        using bits bits1 by auto
      show "\<forall>b' < length (ctxs (hctx_at q h)).
             fifo_of q' h b' = (if b' \<in> set (b # bs) \<and> sbitmap_test_bit (ctx_map (hctx_at q h)) b' then []
                                else fifo_of q h b')"
        using fifos fifo1 bits1 ctxs1 True by auto
    qed
  qed
qed

lemma concat_map_block:
  assumes "b \<in> set bs"
  shows "\<exists>pre post. concat (map f bs) = pre @ f b @ post"
proof -
  from assms obtain xs ys where "bs = xs @ b # ys" by (auto dest: split_list)
  then have "concat (map f bs) = concat (map f xs) @ f b @ concat (map f ys)" by simp
  then show ?thesis by blast
qed

lemma block_keeps_order:
  assumes "batch = pre @ fifo @ post" "i < j" "j < length fifo"
  shows "\<exists>i' j'. i' < j' \<and> j' < length batch \<and> batch ! i' = fifo ! i \<and> batch ! j' = fifo ! j"
proof (intro exI conjI)
  show "length pre + i < length pre + j" using assms by simp
  show "length pre + j < length batch" using assms by simp
  show "batch ! (length pre + i) = fifo ! i" using assms by (simp add: nth_append)
  show "batch ! (length pre + j) = fifo ! j" using assms by (simp add: nth_append)
qed

lemma flush_busy_ctxs_exact:
  assumes wf: "queue_wf q" and h: "h < length (queue_hw_ctx q)"
  shows "snd (blk_mq_flush_busy_ctxs q h l) = l @ concat (map (fifo_of q h) (pending_bits q h))
     \<and> length (snd (blk_mq_flush_busy_ctxs q h l))
         = length l + sum_list (map (\<lambda>b. length (fifo_of q h b)) (pending_bits q h))
     \<and> (\<forall>b. \<not> sbitmap_test_bit (ctx_map (hctx_at (fst (blk_mq_flush_busy_ctxs q h l)) h)) b)
     \<and> (\<forall>b \<in> set (pending_bits q h). fifo_of (fst (blk_mq_flush_busy_ctxs q h l)) h b = [])
     \<and> (\<forall>b \<in> set (pending_bits q h). \<forall>i j. i < j \<and> j < length (fifo_of q h b) \<longrightarrow>
           (\<exists>i' j'. i' < j' \<and> j' < length (snd (blk_mq_flush_busy_ctxs q h l))
               \<and> snd (blk_mq_flush_busy_ctxs q h l) ! i' = fifo_of q h b ! i
               \<and> snd (blk_mq_flush_busy_ctxs q h l) ! j' = fifo_of q h b ! j))"
proof -
  let ?n = "length (ctx_map (hctx_at q h))"
  let ?t = "sbitmap_test_bit (ctx_map (hctx_at q h))"
  from flush_walk_exact [OF wf h, of "[0 ..< ?n]" l] obtain q' where
    w: "blk_mq_flush_busy_ctxs q h l = (q', l @ concat (map (fifo_of q h) (pending_bits q h)))"
    and bits: "\<forall>b'. sbitmap_test_bit (ctx_map (hctx_at q' h)) b' = (?t b' \<and> b' \<notin> set [0 ..< ?n])"
    and fifos: "\<forall>b' < length (ctxs (hctx_at q h)).
             fifo_of q' h b' = (if b' \<in> set [0 ..< ?n] \<and> ?t b' then [] else fifo_of q h b')"
    by (auto simp: blk_mq_flush_busy_ctxs_def sbitmap_for_each_set_def pending_bits_def)
  have len: "?n = length (ctxs (hctx_at q h))" by (rule queue_wf_map_length [OF wf h])
  have c1: "snd (blk_mq_flush_busy_ctxs q h l) = l @ concat (map (fifo_of q h) (pending_bits q h))"
    using w by simp
  have c2: "length (snd (blk_mq_flush_busy_ctxs q h l))
         = length l + sum_list (map (\<lambda>b. length (fifo_of q h b)) (pending_bits q h))"
    by (simp add: c1 length_concat comp_def)
  have c3: "\<forall>b. \<not> sbitmap_test_bit (ctx_map (hctx_at (fst (blk_mq_flush_busy_ctxs q h l)) h)) b"
    using bits w by (auto simp: sbitmap_test_bit_def)
  have c4: "\<forall>b \<in> set (pending_bits q h). fifo_of (fst (blk_mq_flush_busy_ctxs q h l)) h b = []"
    using fifos w len by (auto simp: pending_bits_def)
  have c5: "\<forall>b \<in> set (pending_bits q h). \<forall>i j. i < j \<and> j < length (fifo_of q h b) \<longrightarrow>
           (\<exists>i' j'. i' < j' \<and> j' < length (snd (blk_mq_flush_busy_ctxs q h l))
               \<and> snd (blk_mq_flush_busy_ctxs q h l) ! i' = fifo_of q h b ! i
               \<and> snd (blk_mq_flush_busy_ctxs q h l) ! j' = fifo_of q h b ! j)"
  proof (intro ballI allI impI)
    fix b i j
    assume b: "b \<in> set (pending_bits q h)" and ij: "i < j \<and> j < length (fifo_of q h b)"
    from concat_map_block [OF b, of "fifo_of q h"] obtain pre post where
      "concat (map (fifo_of q h) (pending_bits q h)) = pre @ fifo_of q h b @ post" by blast
    then have "snd (blk_mq_flush_busy_ctxs q h l) = (l @ pre) @ fifo_of q h b @ post"
      by (simp add: c1)
    from block_keeps_order [OF this] ij
    show "\<exists>i' j'. i' < j' \<and> j' < length (snd (blk_mq_flush_busy_ctxs q h l))
               \<and> snd (blk_mq_flush_busy_ctxs q h l) ! i' = fifo_of q h b ! i
               \<and> snd (blk_mq_flush_busy_ctxs q h l) ! j' = fifo_of q h b ! j"
      by blast
  qed
  from c1 c2 c3 c4 c5 show ?thesis by blast
qed



lemma insert_request_fifo:
  assumes wf: "queue_wf q" and own: "slot_owner q h (mq_ctx rq)"
  shows "queue_wf (blk_mq_insert_request q h rq at_head)"
    and "index_hw (ctx_at q (mq_ctx rq)) \<in> set (pending_bits (blk_mq_insert_request q h rq at_head) h)"
    and "fifo_of (blk_mq_insert_request q h rq at_head) h (index_hw (ctx_at q (mq_ctx rq)))
          = (if at_head then rq # fifo_of q h (index_hw (ctx_at q (mq_ctx rq)))
             else fifo_of q h (index_hw (ctx_at q (mq_ctx rq))) @ [rq])"
proof -
  let ?c = "mq_ctx rq"
  let ?b = "index_hw (ctx_at q ?c)"
  let ?l = "if at_head then rq # rq_list (ctx_at q ?c) else rq_list (ctx_at q ?c) @ [rq]"
  from own have h: "h < length (queue_hw_ctx q)" and c: "?c < length (queue_ctx q)"
    and b: "?b < length (ctxs (hctx_at q h))" and slot: "ctxs (hctx_at q h) ! ?b = ?c"
    by (simp_all add: slot_owner_def)
  have len: "length (ctx_map (hctx_at q h)) = length (ctxs (hctx_at q h))"
    by (rule queue_wf_map_length [OF wf h])
  have q1: "blk_mq_insert_req_list q rq at_head = set_rq_list q ?c ?l"
    by (simp add: blk_mq_insert_req_list_def Let_def)
  have wf1: "queue_wf (set_rq_list q ?c ?l)"
    using wf by (rule queue_wf_set_rq_list)
  show "queue_wf (blk_mq_insert_request q h rq at_head)"
    using wf1 h c b len
    by (simp add: blk_mq_insert_request_def blk_mq_hctx_mark_pending_def q1 queue_wf_set_ctx_map
        sbitmap_set_bit_def)
  have bit: "sbitmap_test_bit (ctx_map (hctx_at (blk_mq_insert_request q h rq at_head) h)) ?b"
    using h c b len
    by (simp add: blk_mq_insert_request_def blk_mq_hctx_mark_pending_def q1)
  have blen: "?b < length (ctx_map (hctx_at (blk_mq_insert_request q h rq at_head) h))"
    using bit by (simp add: sbitmap_test_bit_def)
  show "?b \<in> set (pending_bits (blk_mq_insert_request q h rq at_head) h)"
    using bit blen by (simp add: pending_bits_def)
  show "fifo_of (blk_mq_insert_request q h rq at_head) h ?b
          = (if at_head then rq # fifo_of q h ?b else fifo_of q h ?b @ [rq])"
    using h c b slot
    by (simp add: fifo_of_def blk_mq_insert_request_def blk_mq_hctx_mark_pending_def q1)
qed

lemma insert_then_flush_order:
  assumes wf: "queue_wf q" and own: "slot_owner q h (mq_ctx rq)"
    and a: "a \<in> set (fifo_of q h (index_hw (ctx_at q (mq_ctx rq))))"
  shows "\<exists>i j. i < j
      \<and> j < length (snd (blk_mq_flush_busy_ctxs (blk_mq_insert_request q h rq at_head) h l))
      \<and> snd (blk_mq_flush_busy_ctxs (blk_mq_insert_request q h rq at_head) h l) ! i
            = (if at_head then rq else a)
      \<and> snd (blk_mq_flush_busy_ctxs (blk_mq_insert_request q h rq at_head) h l) ! j
            = (if at_head then a else rq)"
proof -
  let ?b = "index_hw (ctx_at q (mq_ctx rq))"
  let ?q = "blk_mq_insert_request q h rq at_head"
  let ?fifo = "fifo_of ?q h ?b"
  note ins = insert_request_fifo [OF wf own, of at_head]
  from own have h: "h < length (queue_hw_ctx q)" by (simp add: slot_owner_def)
  have h': "h < length (queue_hw_ctx ?q)"
    using h by (simp add: blk_mq_insert_request_def blk_mq_hctx_mark_pending_def
        blk_mq_insert_req_list_def Let_def)
  from flush_busy_ctxs_exact [OF ins(1) h', of l]
  have batch: "snd (blk_mq_flush_busy_ctxs ?q h l)
      = l @ concat (map (fifo_of ?q h) (pending_bits ?q h))"
    by blast
  from concat_map_block [OF ins(2), of "fifo_of ?q h"] obtain pre post where
    "concat (map (fifo_of ?q h) (pending_bits ?q h)) = pre @ ?fifo @ post" by blast
  with batch have split: "snd (blk_mq_flush_busy_ctxs ?q h l) = (l @ pre) @ ?fifo @ post"
    by simp
  from a obtain k where k: "k < length (fifo_of q h ?b)" "fifo_of q h ?b ! k = a"
    by (auto simp: in_set_conv_nth)
  show ?thesis
  proof (cases at_head)
    case True
    then have f: "?fifo = rq # fifo_of q h ?b" using ins(3) by simp
    have "0 < Suc k" "Suc k < length ?fifo" using k f by simp_all
    from block_keeps_order [OF split this]
    show ?thesis using True k f by simp
  next
    case False
    then have f: "?fifo = fifo_of q h ?b @ [rq]" using ins(3) by simp
    have "k < length (fifo_of q h ?b)" "length (fifo_of q h ?b) < length ?fifo"
      using k f by simp_all
    from block_keeps_order [OF split this]
    show ?thesis using False k f by (simp add: nth_append)
  qed
qed

text \<open>
  C6 (as amended). \<open>blk_mq_flush_busy_ctxs\<close> appends to the output list, for every set
  bit of the hardware queue's pending bitmap in turn, the whole list of that software queue
  in its order. So the output grows by exactly the number of requests the pending software
  queues held (a batch of exactly that many when the output list starts empty), no
  pending bit is set afterwards, the flushed lists are empty, and two requests of one
  software queue keep the order of the list: if one sat before the other in the list, it
  sits before the other in the batch. The order of the list is the order of insertion at
  the tail: \<open>__blk_mq_insert_request\<close> with \<open>at_head\<close> false puts the request behind the
  requests already queued, and it comes behind each of them in the batch; with \<open>at_head\<close>
  true it puts the request in front of them, and it comes before each of them in the
  batch.
\<close>

theorem blk_mq_flush_busy_ctxs_batch:
  assumes wf: "queue_wf q" and h: "h < length (queue_hw_ctx q)"
  shows "snd (blk_mq_flush_busy_ctxs q h l) = l @ concat (map (fifo_of q h) (pending_bits q h))
     \<and> length (snd (blk_mq_flush_busy_ctxs q h l))
         = length l + sum_list (map (\<lambda>b. length (fifo_of q h b)) (pending_bits q h))
     \<and> (\<forall>b. \<not> sbitmap_test_bit (ctx_map (hctx_at (fst (blk_mq_flush_busy_ctxs q h l)) h)) b)
     \<and> (\<forall>b \<in> set (pending_bits q h). fifo_of (fst (blk_mq_flush_busy_ctxs q h l)) h b = [])
     \<and> (\<forall>b \<in> set (pending_bits q h). \<forall>i j. i < j \<and> j < length (fifo_of q h b) \<longrightarrow>
           (\<exists>i' j'. i' < j' \<and> j' < length (snd (blk_mq_flush_busy_ctxs q h l))
               \<and> snd (blk_mq_flush_busy_ctxs q h l) ! i' = fifo_of q h b ! i
               \<and> snd (blk_mq_flush_busy_ctxs q h l) ! j' = fifo_of q h b ! j))
     \<and> (slot_owner q h (mq_ctx rq) \<longrightarrow>
           queue_wf (blk_mq_insert_request q h rq at_head)
           \<and> index_hw (ctx_at q (mq_ctx rq))
               \<in> set (pending_bits (blk_mq_insert_request q h rq at_head) h)
           \<and> fifo_of (blk_mq_insert_request q h rq at_head) h (index_hw (ctx_at q (mq_ctx rq)))
               = (if at_head then rq # fifo_of q h (index_hw (ctx_at q (mq_ctx rq)))
                  else fifo_of q h (index_hw (ctx_at q (mq_ctx rq))) @ [rq]))
     \<and> (slot_owner q h (mq_ctx rq) \<longrightarrow>
           (\<forall>a \<in> set (fifo_of q h (index_hw (ctx_at q (mq_ctx rq)))).
              \<exists>i j. i < j
                \<and> j < length (snd (blk_mq_flush_busy_ctxs (blk_mq_insert_request q h rq False) h l))
                \<and> snd (blk_mq_flush_busy_ctxs (blk_mq_insert_request q h rq False) h l) ! i = a
                \<and> snd (blk_mq_flush_busy_ctxs (blk_mq_insert_request q h rq False) h l) ! j = rq))
     \<and> (slot_owner q h (mq_ctx rq) \<longrightarrow>
           (\<forall>a \<in> set (fifo_of q h (index_hw (ctx_at q (mq_ctx rq)))).
              \<exists>i j. i < j
                \<and> j < length (snd (blk_mq_flush_busy_ctxs (blk_mq_insert_request q h rq True) h l))
                \<and> snd (blk_mq_flush_busy_ctxs (blk_mq_insert_request q h rq True) h l) ! i = rq
                \<and> snd (blk_mq_flush_busy_ctxs (blk_mq_insert_request q h rq True) h l) ! j = a))"
proof -
  note flushed = flush_busy_ctxs_exact [OF wf h, of l]
  have ins: "slot_owner q h (mq_ctx rq) \<longrightarrow>
           queue_wf (blk_mq_insert_request q h rq at_head)
           \<and> index_hw (ctx_at q (mq_ctx rq))
               \<in> set (pending_bits (blk_mq_insert_request q h rq at_head) h)
           \<and> fifo_of (blk_mq_insert_request q h rq at_head) h (index_hw (ctx_at q (mq_ctx rq)))
               = (if at_head then rq # fifo_of q h (index_hw (ctx_at q (mq_ctx rq)))
                  else fifo_of q h (index_hw (ctx_at q (mq_ctx rq))) @ [rq])"
    using insert_request_fifo [OF wf, of h rq at_head] by blast
  have tail: "slot_owner q h (mq_ctx rq) \<longrightarrow>
           (\<forall>a \<in> set (fifo_of q h (index_hw (ctx_at q (mq_ctx rq)))).
              \<exists>i j. i < j
                \<and> j < length (snd (blk_mq_flush_busy_ctxs (blk_mq_insert_request q h rq False) h l))
                \<and> snd (blk_mq_flush_busy_ctxs (blk_mq_insert_request q h rq False) h l) ! i = a
                \<and> snd (blk_mq_flush_busy_ctxs (blk_mq_insert_request q h rq False) h l) ! j = rq)"
    using insert_then_flush_order [OF wf, of h rq _ False l] by simp
  have head: "slot_owner q h (mq_ctx rq) \<longrightarrow>
           (\<forall>a \<in> set (fifo_of q h (index_hw (ctx_at q (mq_ctx rq)))).
              \<exists>i j. i < j
                \<and> j < length (snd (blk_mq_flush_busy_ctxs (blk_mq_insert_request q h rq True) h l))
                \<and> snd (blk_mq_flush_busy_ctxs (blk_mq_insert_request q h rq True) h l) ! i = rq
                \<and> snd (blk_mq_flush_busy_ctxs (blk_mq_insert_request q h rq True) h l) ! j = a)"
    using insert_then_flush_order [OF wf, of h rq _ True l] by simp
  from flushed ins tail head show ?thesis by (intro conjI) blast+
qed


text \<open>
  The scenario of the spec: one hardware queue, three software queues with two queued
  requests each; and a seventh request inserted at the tail of the second software queue
  before the flush.
\<close>

definition three_ctx_queue :: request_queue where
  "three_ctx_queue =
     \<lparr> queue_ctx = [\<lparr> rq_list = [example_rq 0 0, example_rq 1 0], cpu = 0, index_hw = 0 \<rparr>,
                    \<lparr> rq_list = [example_rq 2 1, example_rq 3 1], cpu = 1, index_hw = 1 \<rparr>,
                    \<lparr> rq_list = [example_rq 4 2, example_rq 5 2], cpu = 2, index_hw = 2 \<rparr>],
       queue_hw_ctx = [example_hctx [True, True, True] [0, 1, 2]],
       mq_map = [0, 0, 0] \<rparr>"

theorem blk_mq_flush_busy_ctxs_batch_witness:
  "queue_wf three_ctx_queue \<and> 0 < length (queue_hw_ctx three_ctx_queue)
   \<and> pending_bits three_ctx_queue 0 = [0, 1, 2]
   \<and> map rq_id (snd (blk_mq_flush_busy_ctxs three_ctx_queue 0 [])) = [0, 1, 2, 3, 4, 5]
   \<and> length (snd (blk_mq_flush_busy_ctxs three_ctx_queue 0 [])) = 6
   \<and> \<not> sbitmap_test_bit (ctx_map (hctx_at (fst (blk_mq_flush_busy_ctxs three_ctx_queue 0 [])) 0)) 0
   \<and> \<not> sbitmap_test_bit (ctx_map (hctx_at (fst (blk_mq_flush_busy_ctxs three_ctx_queue 0 [])) 0)) 1
   \<and> \<not> sbitmap_test_bit (ctx_map (hctx_at (fst (blk_mq_flush_busy_ctxs three_ctx_queue 0 [])) 0)) 2
   \<and> fifo_of (fst (blk_mq_flush_busy_ctxs three_ctx_queue 0 [])) 0 1 = []
   \<and> slot_owner three_ctx_queue 0 (mq_ctx (example_rq 6 1))
   \<and> map rq_id (fifo_of (blk_mq_insert_request three_ctx_queue 0 (example_rq 6 1) False) 0 1)
       = [2, 3, 6]
   \<and> map rq_id (snd (blk_mq_flush_busy_ctxs
         (blk_mq_insert_request three_ctx_queue 0 (example_rq 6 1) False) 0 []))
       = [0, 1, 2, 3, 6, 4, 5]"
proof -
  have wf: "queue_wf three_ctx_queue" by code_simp
  have h: "0 < length (queue_hw_ctx three_ctx_queue)" by code_simp
  have bits: "pending_bits three_ctx_queue 0 = [0, 1, 2]" by code_simp
  have fifos: "concat (map (fifo_of three_ctx_queue 0) [0, 1, 2])
      = [example_rq 0 0, example_rq 1 0, example_rq 2 1, example_rq 3 1, example_rq 4 2, example_rq 5 2]"
    by code_simp
  have own: "slot_owner three_ctx_queue 0 (mq_ctx (example_rq 6 1))" by code_simp
  have slot: "index_hw (ctx_at three_ctx_queue (mq_ctx (example_rq 6 1))) = 1" by code_simp
  have old: "fifo_of three_ctx_queue 0 1 = [example_rq 2 1, example_rq 3 1]" by code_simp
  note flushed = blk_mq_flush_busy_ctxs_batch [OF wf h, where l = "[]" and rq = "example_rq 6 1"
      and at_head = False]
  from flushed have "snd (blk_mq_flush_busy_ctxs three_ctx_queue 0 [])
      = [] @ concat (map (fifo_of three_ctx_queue 0) (pending_bits three_ctx_queue 0))"
    by (rule conjunct1)
  then have batch: "snd (blk_mq_flush_busy_ctxs three_ctx_queue 0 [])
      = [example_rq 0 0, example_rq 1 0, example_rq 2 1, example_rq 3 1, example_rq 4 2, example_rq 5 2]"
    by (simp only: bits fifos append_Nil)
  from flushed [THEN conjunct2, THEN conjunct2, THEN conjunct1]
  have clear: "\<not> sbitmap_test_bit (ctx_map (hctx_at (fst (blk_mq_flush_busy_ctxs three_ctx_queue 0 [])) 0)) b" for b
    by blast
  have "1 \<in> set (pending_bits three_ctx_queue 0)" by (simp add: bits)
  with flushed [THEN conjunct2, THEN conjunct2, THEN conjunct2, THEN conjunct1]
  have empty: "fifo_of (fst (blk_mq_flush_busy_ctxs three_ctx_queue 0 [])) 0 1 = []"
    by blast
  from flushed [THEN conjunct2, THEN conjunct2, THEN conjunct2, THEN conjunct2, THEN conjunct2,
      THEN conjunct1] own
  have "fifo_of (blk_mq_insert_request three_ctx_queue 0 (example_rq 6 1) False) 0
          (index_hw (ctx_at three_ctx_queue (mq_ctx (example_rq 6 1))))
        = (if False
           then example_rq 6 1
                  # fifo_of three_ctx_queue 0
                      (index_hw (ctx_at three_ctx_queue (mq_ctx (example_rq 6 1))))
           else fifo_of three_ctx_queue 0
                  (index_hw (ctx_at three_ctx_queue (mq_ctx (example_rq 6 1)))) @ [example_rq 6 1])"
    by blast
  then have tail: "fifo_of (blk_mq_insert_request three_ctx_queue 0 (example_rq 6 1) False) 0 1
      = [example_rq 2 1, example_rq 3 1, example_rq 6 1]"
    by (simp only: slot old if_False append.simps)
  have after: "map rq_id (snd (blk_mq_flush_busy_ctxs
         (blk_mq_insert_request three_ctx_queue 0 (example_rq 6 1) False) 0 []))
       = [0, 1, 2, 3, 6, 4, 5]"
    by code_simp
  have ids: "map rq_id (snd (blk_mq_flush_busy_ctxs three_ctx_queue 0 [])) = [0, 1, 2, 3, 4, 5]"
    "length (snd (blk_mq_flush_busy_ctxs three_ctx_queue 0 [])) = 6"
    by (simp_all add: batch example_rq_def)
  have tail_ids: "map rq_id
      (fifo_of (blk_mq_insert_request three_ctx_queue 0 (example_rq 6 1) False) 0 1) = [2, 3, 6]"
    unfolding tail by (simp add: example_rq_def)
  from wf h bits ids clear [of 0] clear [of 1] clear [of 2] empty own tail_ids after
  show ?thesis by blast
qed

text \<open>
  The claim as written fails for a request inserted at the head: request 10 is enqueued on
  an empty software queue, then request 11 at its head (as \<open>blk_mq_requeue_work\<close> does for a
  requeued request); the batch has request 11 before request 10.
\<close>

definition one_ctx_queue :: request_queue where
  "one_ctx_queue =
     \<lparr> queue_ctx = [\<lparr> rq_list = [], cpu = 0, index_hw = 0 \<rparr>],
       queue_hw_ctx = [example_hctx [False] [0]],
       mq_map = [0] \<rparr>"

theorem blk_mq_insert_request_at_head_order:
  "map rq_id (rq_list (ctx_at (blk_mq_insert_request one_ctx_queue 0 (example_rq 10 0) False) 0))
     = [10]
   \<and> map rq_id (snd (blk_mq_flush_busy_ctxs
         (blk_mq_insert_request
            (blk_mq_insert_request one_ctx_queue 0 (example_rq 10 0) False) 0 (example_rq 11 0) True)
         0 []))
     = [11, 10]"
  by code_simp


subsection \<open>Request state flags and completion\<close>

text \<open>
  Modelled from the spec: \<open>enum rq_atomic_flags\<close> and the helpers \<open>blk_mark_rq_complete\<close>
  and \<open>blk_clear_rq_complete\<close> (block/blk.h) are not among the sources. The spec's words:
  "checks-and-sets COMPLETE atomically" and "clear COMPLETE". \<open>blk_mark_rq_complete\<close> is a
  test-and-set of the bit \<open>REQ_ATOM_COMPLETE\<close> that returns the old value;
  \<open>blk_clear_rq_complete\<close> clears the bit. The bit numbers agree with the note in
  \<open>blk_mq_check_inflight\<close>: \<open>atomic_flags\<close> takes the values 1, 2 and 3, and a request with
  value 1 has not been started.
\<close>

definition REQ_ATOM_COMPLETE :: nat where
  "REQ_ATOM_COMPLETE = 0"

definition REQ_ATOM_STARTED :: nat where
  "REQ_ATOM_STARTED = 1"

definition test_bit :: "nat \<Rightarrow> 64 word \<Rightarrow> bool" where
  "test_bit nr w = bit w nr"

definition blk_mark_rq_complete :: "request \<Rightarrow> bool \<times> request" where
  "blk_mark_rq_complete rq =
     (test_bit REQ_ATOM_COMPLETE (atomic_flags rq),
      rq\<lparr>atomic_flags := set_bit REQ_ATOM_COMPLETE (atomic_flags rq)\<rparr>)"

definition blk_clear_rq_complete :: "request \<Rightarrow> request" where
  "blk_clear_rq_complete rq = rq\<lparr>atomic_flags := unset_bit REQ_ATOM_COMPLETE (atomic_flags rq)\<rparr>"

text \<open>
  \<open>__blk_mq_complete_request\<close> (here \<open>blk_mq_complete_request_inner\<close>) hands the request to
  its finisher: \<open>blk_mq_end_request\<close> when the queue has no \<open>softirq_done_fn\<close>, else the
  driver's \<open>softirq_done_fn\<close>, called directly (\<open>sync\<close>) or through
  \<open>blk_mq_ipi_complete_request\<close>. What the finisher does with the request lies outside
  (\<open>blk_update_request\<close>, \<open>end_io\<close>, the driver); the model records each hand-over in a
  log, so that finalizations can be counted.
\<close>

datatype finisher = End_request | Softirq_done | Ipi_complete

record completion =
  done_rq :: nat
  done_errors :: int
  done_by :: finisher

definition blk_mq_complete_request_inner ::
    "bool \<Rightarrow> request \<Rightarrow> bool \<Rightarrow> completion list \<Rightarrow> completion list" where
  "blk_mq_complete_request_inner softirq_done_fn rq sync log =
     log @ [\<lparr> done_rq = rq_id rq, done_errors = errors rq,
              done_by = (if \<not> softirq_done_fn then End_request
                         else if sync then Softirq_done else Ipi_complete) \<rparr>]"

text \<open>
  \<^verbatim>\<open>
  void blk_mq_complete_request(struct request *rq, int error)
  {
          struct request_queue *q = rq->q;

          if (unlikely(blk_should_fake_timeout(q)))
                  return;
          if (!blk_mark_rq_complete(rq)) {
                  rq->errors = error;
                  __blk_mq_complete_request(rq, false);
          }
  }
  \<close>
  \<open>blk_should_fake_timeout\<close> (block/blk-timeout.c, the fault injection of lost
  completions) is not among the sources: its answer is the parameter \<open>fake_timeout\<close> of
  the call. \<open>blk_mq_complete_request_sync\<close> is the same without that check.
\<close>

definition blk_mq_complete_request ::
    "bool \<Rightarrow> bool \<Rightarrow> request \<Rightarrow> int \<Rightarrow> completion list \<Rightarrow> request \<times> completion list" where
  "blk_mq_complete_request fake_timeout softirq_done_fn rq error log =
     (if fake_timeout then (rq, log)
      else case blk_mark_rq_complete rq of
             (True, rq') \<Rightarrow> (rq', log)
           | (False, rq') \<Rightarrow>
               (rq'\<lparr>errors := error\<rparr>,
                blk_mq_complete_request_inner softirq_done_fn (rq'\<lparr>errors := error\<rparr>) False log))"

definition blk_mq_complete_request_sync ::
    "bool \<Rightarrow> request \<Rightarrow> int \<Rightarrow> completion list \<Rightarrow> request \<times> completion list" where
  "blk_mq_complete_request_sync softirq_done_fn rq error log =
     (case blk_mark_rq_complete rq of
        (True, rq') \<Rightarrow> (rq', log)
      | (False, rq') \<Rightarrow>
          (rq'\<lparr>errors := error\<rparr>,
           blk_mq_complete_request_inner softirq_done_fn (rq'\<lparr>errors := error\<rparr>) True log))"

lemma set_bit_idem: "bit (w :: 64 word) n \<Longrightarrow> set_bit n w = w"
  by (rule bit_eqI) (auto simp: bit_simps)

lemma unset_set_bit_clear: "\<not> bit (w :: 64 word) n \<Longrightarrow> unset_bit n (set_bit n w) = w"
  by (rule bit_eqI) (auto simp: bit_simps)

lemma complete_twice_count:
  assumes "\<not> test_bit REQ_ATOM_COMPLETE (atomic_flags rq)"
  shows "length (snd (blk_mq_complete_request f2 sd (fst (blk_mq_complete_request f1 sd rq e1 log)) e2
                     (snd (blk_mq_complete_request f1 sd rq e1 log))))
         = length log + (if f1 \<and> f2 then 0 else 1)"
  using assms
  by (auto simp: blk_mq_complete_request_def blk_mark_rq_complete_def test_bit_def
      blk_mq_complete_request_inner_def REQ_ATOM_COMPLETE_def bit_simps)

text \<open>
  C2 (as amended). \<open>blk_mq_complete_request\<close> first asks \<open>blk_should_fake_timeout\<close>, and
  when that fires it returns without touching the request. Otherwise it test-and-sets
  \<open>REQ_ATOM_COMPLETE\<close>: if the flag was already set the call changes nothing and
  finalizes nothing; if it was clear the flag is set, the status is recorded and the
  request is finalized once. So two calls on a request whose flag is clear finalize it
  exactly once, unless the fault injection fires on both calls; never twice.
\<close>

theorem blk_mq_complete_request_once:
  "(fake \<longrightarrow> blk_mq_complete_request fake sd rq e log = (rq, log))
   \<and> (\<not> fake \<and> test_bit REQ_ATOM_COMPLETE (atomic_flags rq) \<longrightarrow>
        blk_mq_complete_request fake sd rq e log = (rq, log))
   \<and> (\<not> fake \<and> \<not> test_bit REQ_ATOM_COMPLETE (atomic_flags rq) \<longrightarrow>
        test_bit REQ_ATOM_COMPLETE (atomic_flags (fst (blk_mq_complete_request fake sd rq e log)))
        \<and> errors (fst (blk_mq_complete_request fake sd rq e log)) = e
        \<and> snd (blk_mq_complete_request fake sd rq e log)
            = log @ [\<lparr> done_rq = rq_id rq, done_errors = e,
                       done_by = (if sd then Ipi_complete else End_request) \<rparr>])
   \<and> (\<not> test_bit REQ_ATOM_COMPLETE (atomic_flags rq) \<longrightarrow>
        length (snd (blk_mq_complete_request f2 sd (fst (blk_mq_complete_request f1 sd rq e1 log)) e2
                     (snd (blk_mq_complete_request f1 sd rq e1 log))))
         = length log + (if f1 \<and> f2 then 0 else 1))"
proof (intro conjI impI)
  assume fake
  then show "blk_mq_complete_request fake sd rq e log = (rq, log)"
    by (simp add: blk_mq_complete_request_def)
next
  assume "\<not> fake \<and> test_bit REQ_ATOM_COMPLETE (atomic_flags rq)"
  then show "blk_mq_complete_request fake sd rq e log = (rq, log)"
    by (simp add: blk_mq_complete_request_def blk_mark_rq_complete_def test_bit_def set_bit_idem)
next
  assume a: "\<not> fake \<and> \<not> test_bit REQ_ATOM_COMPLETE (atomic_flags rq)"
  then show "test_bit REQ_ATOM_COMPLETE (atomic_flags (fst (blk_mq_complete_request fake sd rq e log)))"
    by (simp add: blk_mq_complete_request_def blk_mark_rq_complete_def test_bit_def
        REQ_ATOM_COMPLETE_def bit_simps)
  from a show "errors (fst (blk_mq_complete_request fake sd rq e log)) = e"
    by (simp add: blk_mq_complete_request_def blk_mark_rq_complete_def)
  from a show "snd (blk_mq_complete_request fake sd rq e log)
            = log @ [\<lparr> done_rq = rq_id rq, done_errors = e,
                       done_by = (if sd then Ipi_complete else End_request) \<rparr>]"
    by (simp add: blk_mq_complete_request_def blk_mark_rq_complete_def
        blk_mq_complete_request_inner_def)
next
  assume "\<not> test_bit REQ_ATOM_COMPLETE (atomic_flags rq)"
  then show "length (snd (blk_mq_complete_request f2 sd (fst (blk_mq_complete_request f1 sd rq e1 log)) e2
                     (snd (blk_mq_complete_request f1 sd rq e1 log))))
         = length log + (if f1 \<and> f2 then 0 else 1)"
    by (rule complete_twice_count)
qed

theorem blk_mq_complete_request_once_witness:
  "\<not> test_bit REQ_ATOM_COMPLETE (atomic_flags (example_rq 0 0))
   \<and> test_bit REQ_ATOM_COMPLETE
         (atomic_flags (fst (blk_mq_complete_request False False (example_rq 0 0) 5 [])))
   \<and> snd (blk_mq_complete_request False False (example_rq 0 0) 5 [])
       = [\<lparr> done_rq = 0, done_errors = 5, done_by = End_request \<rparr>]
   \<and> length (snd (blk_mq_complete_request False False
            (fst (blk_mq_complete_request False False (example_rq 0 0) 5 [])) 7
            (snd (blk_mq_complete_request False False (example_rq 0 0) 5 [])))) = 1"
proof -
  have c: "\<not> test_bit REQ_ATOM_COMPLETE (atomic_flags (example_rq 0 0))"
    by (simp add: example_rq_def test_bit_def)
  note once = blk_mq_complete_request_once [where fake = False and sd = False
        and rq = "example_rq 0 0" and e = 5 and log = "[]" and ?f1.0 = False and ?f2.0 = False
        and ?e1.0 = 5 and ?e2.0 = 7]
  from once c have flag: "test_bit REQ_ATOM_COMPLETE
         (atomic_flags (fst (blk_mq_complete_request False False (example_rq 0 0) 5 [])))"
    by blast
  from once c have "snd (blk_mq_complete_request False False (example_rq 0 0) 5 [])
       = [] @ [\<lparr> done_rq = rq_id (example_rq 0 0), done_errors = 5,
                  done_by = (if False then Ipi_complete else End_request) \<rparr>]"
    by blast
  then have entry: "snd (blk_mq_complete_request False False (example_rq 0 0) 5 [])
       = [\<lparr> done_rq = 0, done_errors = 5, done_by = End_request \<rparr>]"
    by (simp add: example_rq_def)
  from once c have "length (snd (blk_mq_complete_request False False
            (fst (blk_mq_complete_request False False (example_rq 0 0) 5 [])) 7
            (snd (blk_mq_complete_request False False (example_rq 0 0) 5 []))))
       = length ([] :: completion list) + (if False \<and> False then 0 else 1)"
    by blast
  then have twice: "length (snd (blk_mq_complete_request False False
            (fst (blk_mq_complete_request False False (example_rq 0 0) 5 [])) 7
            (snd (blk_mq_complete_request False False (example_rq 0 0) 5 [])))) = 1"
    by simp
  from c flag entry twice show ?thesis by blast
qed


text \<open>
  The claim as written fails when the fault injection fires: the call does not
  test-and-set the flag, and two such calls finalize the request zero times.
\<close>

theorem blk_mq_complete_request_fake_timeout:
  "\<not> test_bit REQ_ATOM_COMPLETE (atomic_flags (example_rq 0 0))
   \<and> \<not> test_bit REQ_ATOM_COMPLETE
         (atomic_flags (fst (blk_mq_complete_request True False (example_rq 0 0) 0 [])))
   \<and> snd (blk_mq_complete_request True False
            (fst (blk_mq_complete_request True False (example_rq 0 0) 0 [])) 0
            (snd (blk_mq_complete_request True False (example_rq 0 0) 0 []))) = []"
  by (simp add: blk_mq_complete_request_def example_rq_def test_bit_def)


subsection \<open>The timeout scan\<close>

text \<open>
  Modelled from the spec: the macros \<open>time_after\<close> and \<open>time_after_eq\<close>
  (include/linux/jiffies.h) are not among the sources. "Deadline has passed" is the
  kernel's comparison of two \<open>unsigned long\<close> jiffies values through the sign of their
  difference, which stays right when the counter wraps around:
  \<open>time_after(a, b)\<close> is \<open>(long)(b - a) < 0\<close> and \<open>time_after_eq(a, b)\<close> is
  \<open>(long)(a - b) >= 0\<close>.
\<close>

definition time_after :: "64 word \<Rightarrow> 64 word \<Rightarrow> bool" where
  "time_after a b = (sint (b - a) < 0)"

definition time_after_eq :: "64 word \<Rightarrow> 64 word \<Rightarrow> bool" where
  "time_after_eq a b = (0 \<le> sint (a - b))"

lemma sint_neg_iff: "sint (x :: 64 word) < 0 \<longleftrightarrow> 2 ^ 63 \<le> uint x"
proof -
  have "sint x < 0 \<longleftrightarrow> bit x 63"
    using bit_last_iff [of x] by simp
  also have "\<dots> \<longleftrightarrow> bit (uint x) 63" by (simp add: bit_uint_iff)
  also have "\<dots> \<longleftrightarrow> 2 ^ 63 \<le> uint x"
  proof -
    have r: "0 \<le> uint x" "uint x < 2 ^ 64" using uint_lt2p [of x] by simp_all
    have "bit (uint x) 63 \<longleftrightarrow> odd (uint x div 2 ^ 63)" by (simp add: bit_iff_odd)
    moreover have "uint x div 2 ^ 63 = (if 2 ^ 63 \<le> uint x then 1 else 0)"
      using r by (auto simp: div_pos_pos_trivial)
    ultimately show ?thesis by simp
  qed
  finally show ?thesis .
qed

lemma uint_neg_big:
  fixes a :: "64 word"
  shows "2 ^ 63 \<le> uint (- a) \<longleftrightarrow> 1 \<le> uint a \<and> uint a \<le> 2 ^ 63"
proof -
  have r: "0 \<le> uint a" "uint a < 2 ^ 64" using uint_lt2p [of a] by simp_all
  have "uint (0 - a) = (if uint a \<le> 0 then 0 - uint a else 0 - uint a + 2 ^ 64)"
    using uint_sub_if' [of 0 a] by simp
  then have e: "uint (- a) = (if uint a = 0 then 0 else 2 ^ 64 - uint a)"
    using r by auto
  show ?thesis
  proof (cases "uint a = 0")
    case True
    with e show ?thesis by simp
  next
    case False
    with e have "uint (- a) = 2 ^ 64 - uint a" by simp
    moreover from False have "1 \<le> uint a" using uint_ge_0 [of a] by linarith
    ultimately show ?thesis by simp
  qed
qed

lemma uint_diff_big:
  fixes a b :: "64 word"
  assumes "1 \<le> uint a" "uint a \<le> 2 ^ 63" "1 \<le> uint b" "uint b \<le> 2 ^ 63"
  shows "2 ^ 63 \<le> uint (b - a) \<longleftrightarrow> uint b < uint a"
proof -
  have "uint (b - a) = (if uint a \<le> uint b then uint b - uint a else uint b - uint a + 2 ^ 64)"
    using uint_sub_if' [of b a] by simp
  then show ?thesis using assms by auto
qed

lemma unexpired_offset:
  "\<not> time_after_eq j d \<longleftrightarrow> 1 \<le> uint (d - j) \<and> uint (d - j) \<le> 2 ^ 63"
proof -
  have "\<not> time_after_eq j d \<longleftrightarrow> 2 ^ 63 \<le> uint (j - d)"
    by (simp add: time_after_eq_def sint_neg_iff not_le)
  also have "j - d = - (d - j)" by simp
  also have "2 ^ 63 \<le> uint (- (d - j)) \<longleftrightarrow> 1 \<le> uint (d - j) \<and> uint (d - j) \<le> 2 ^ 63"
    by (rule uint_neg_big)
  finally show ?thesis .
qed

lemma time_after_unexpired:
  assumes "\<not> time_after_eq j d1" "\<not> time_after_eq j d2"
  shows "time_after d1 d2 \<longleftrightarrow> d2 - j < d1 - j"
proof -
  define a b where "a = d1 - j" and "b = d2 - j"
  have a: "1 \<le> uint a" "uint a \<le> 2 ^ 63" and b: "1 \<le> uint b" "uint b \<le> 2 ^ 63"
    using assms by (simp_all add: unexpired_offset a_def b_def)
  have "d2 - d1 = b - a" by (simp add: a_def b_def)
  then have "time_after d1 d2 \<longleftrightarrow> 2 ^ 63 \<le> uint (b - a)"
    by (simp add: time_after_def sint_neg_iff)
  also have "\<dots> \<longleftrightarrow> uint b < uint a"
    by (rule uint_diff_big [OF a b])
  also have "\<dots> \<longleftrightarrow> b < a" by (simp add: word_less_def)
  finally show ?thesis by (simp add: a_def b_def)
qed


text \<open>
  \<open>enum blk_eh_timer_return\<close>, with one more value for an answer outside the
  enumeration (the \<open>default\<close> branch of the switch).
\<close>

datatype blk_eh_timer_return =
  BLK_EH_NOT_HANDLED | BLK_EH_HANDLED | BLK_EH_RESET_TIMER | BLK_EH_OTHER int

text \<open>
  Modelled from the spec: \<open>blk_add_timer\<close> (block/blk-timeout.c) is not among the
  sources. The spec: "computes and stores \<open>deadline = now + timeout\<close>", "extend deadline".
\<close>

definition blk_add_timer :: "64 word \<Rightarrow> request \<Rightarrow> request" where
  "blk_add_timer jiffies rq = rq\<lparr>deadline := jiffies + timeout rq\<rparr>"


text \<open>
  \<^verbatim>\<open>
  void blk_mq_rq_timed_out(struct request *req, bool reserved)
  {
          const struct blk_mq_ops *ops = req->q->mq_ops;
          enum blk_eh_timer_return ret = BLK_EH_RESET_TIMER;

          if (!test_bit(REQ_ATOM_STARTED, &req->atomic_flags))
                  return;
          if (ops->timeout)
                  ret = ops->timeout(req, reserved);
          switch (ret) {
          case BLK_EH_HANDLED:
                  __blk_mq_complete_request(req, false);
                  break;
          case BLK_EH_RESET_TIMER:
                  blk_add_timer(req);
                  blk_clear_rq_complete(req);
                  break;
          case BLK_EH_NOT_HANDLED:
                  break;
          default:
                  printk(KERN_ERR "block: bad eh return: %d\n", ret);
                  break;
          }
  }
  \<close>
  The driver's handler \<open>ops->timeout\<close> is a parameter (\<open>None\<close> when the driver has
  none). It gets the request by pointer and may write it (a driver sets \<open>rq->errors\<close>
  there, for one), so it answers with its verdict and the request as it leaves it; what the
  function does afterwards, it does to that request.
\<close>

type_synonym timeout_fn = "request \<Rightarrow> bool \<Rightarrow> blk_eh_timer_return \<times> request"

definition blk_mq_rq_timed_out ::
    "timeout_fn option \<Rightarrow> 64 word \<Rightarrow> bool \<Rightarrow> request \<Rightarrow> bool
      \<Rightarrow> completion list \<Rightarrow> request \<times> completion list" where
  "blk_mq_rq_timed_out ops_timeout jiffies softirq_done_fn req reserved log =
     (if \<not> test_bit REQ_ATOM_STARTED (atomic_flags req) then (req, log)
      else case (case ops_timeout of None \<Rightarrow> (BLK_EH_RESET_TIMER, req)
                 | Some handler \<Rightarrow> handler req reserved) of
             (BLK_EH_HANDLED, req') \<Rightarrow>
               (req', blk_mq_complete_request_inner softirq_done_fn req' False log)
           | (BLK_EH_RESET_TIMER, req') \<Rightarrow> (blk_clear_rq_complete (blk_add_timer jiffies req'), log)
           | (BLK_EH_NOT_HANDLED, req') \<Rightarrow> (req', log)
           | (BLK_EH_OTHER v, req') \<Rightarrow> (req', log))"

text \<open>
  \<^verbatim>\<open>
  static void blk_mq_check_expired(struct blk_mq_hw_ctx *hctx,
                  struct request *rq, void *priv, bool reserved)
  {
          struct blk_mq_timeout_data *data = priv;

          if (!test_bit(REQ_ATOM_STARTED, &rq->atomic_flags))
                  return;
          if (time_after_eq(jiffies, rq->deadline)) {
                  if (!blk_mark_rq_complete(rq))
                          blk_mq_rq_timed_out(rq, reserved);
          } else if (!data->next_set || time_after(data->next, rq->deadline)) {
                  data->next = rq->deadline;
                  data->next_set = 1;
          }
  }
  \<close>
  \<open>struct blk_mq_timeout_data\<close> has the fields \<open>next\<close> and \<open>next_set\<close>.
\<close>

record blk_mq_timeout_data =
  data_next :: "64 word"
  data_next_set :: "32 word"

definition blk_mq_check_expired ::
    "timeout_fn option \<Rightarrow> 64 word \<Rightarrow> bool \<Rightarrow> request \<Rightarrow> bool
      \<Rightarrow> blk_mq_timeout_data \<times> completion list
      \<Rightarrow> request \<times> blk_mq_timeout_data \<times> completion list" where
  "blk_mq_check_expired ops_timeout jiffies softirq_done_fn rq reserved = (\<lambda>(data, log).
     (if \<not> test_bit REQ_ATOM_STARTED (atomic_flags rq) then (rq, data, log)
      else if time_after_eq jiffies (deadline rq) then
        (case blk_mark_rq_complete rq of
           (False, rq') \<Rightarrow>
             (case blk_mq_rq_timed_out ops_timeout jiffies softirq_done_fn rq' reserved log of
                (rq'', log') \<Rightarrow> (rq'', data, log'))
         | (True, rq') \<Rightarrow> (rq', data, log))
      else if data_next_set data = 0 \<or> time_after (data_next data) (deadline rq) then
        (rq, data\<lparr>data_next := deadline rq, data_next_set := 1\<rparr>, log)
      else (rq, data, log)))"

text \<open>
  Modelled from the spec: \<open>blk_mq_queue_tag_busy_iter\<close> (block/blk-mq-tag.c) is not among
  the sources. The spec: "for every STARTED request ...": the iterator calls the
  function on the request of every tag in use, one after the other; \<open>reserved\<close> says
  whether the tag is a reserved one. \<open>blk_mq_timeout_work\<close> starts the scan with
  \<open>next = 0\<close> and \<open>next_set = 0\<close> and, when \<open>next_set\<close> comes back set, arms the timer
  for \<open>next\<close>. One value of \<open>jiffies\<close> stands for the whole scan.
\<close>

fun blk_mq_queue_tag_busy_iter ::
    "(request \<Rightarrow> bool \<Rightarrow> 'p \<Rightarrow> request \<times> 'p) \<Rightarrow> (request \<times> bool) list \<Rightarrow> 'p
      \<Rightarrow> (request \<times> bool) list \<times> 'p" where
  "blk_mq_queue_tag_busy_iter fn [] priv = ([], priv)"
| "blk_mq_queue_tag_busy_iter fn ((rq, reserved) # rest) priv =
     (case fn rq reserved priv of
        (rq', priv') \<Rightarrow>
          (case blk_mq_queue_tag_busy_iter fn rest priv' of
             (rest', priv'') \<Rightarrow> ((rq', reserved) # rest', priv'')))"

definition blk_mq_timeout_scan ::
    "timeout_fn option \<Rightarrow> 64 word \<Rightarrow> bool \<Rightarrow> (request \<times> bool) list
      \<Rightarrow> (request \<times> bool) list \<times> blk_mq_timeout_data \<times> completion list" where
  "blk_mq_timeout_scan ops_timeout jiffies softirq_done_fn busy =
     blk_mq_queue_tag_busy_iter (blk_mq_check_expired ops_timeout jiffies softirq_done_fn) busy
       (\<lparr> data_next = 0, data_next_set = 0 \<rparr>, [])"

text \<open>
  \<open>rq_live\<close>: a started request whose deadline has not passed. \<open>timeout_answer\<close>: the
  answer of the driver's handler for a request that the scan has just marked complete, and
  the request as the handler leaves it; \<open>BLK_EH_RESET_TIMER\<close> and the marked request when
  the driver has no handler. \<open>expired_rq\<close> and \<open>expired_log\<close>: what
  \<open>blk_mq_check_expired\<close> makes of one request, and the finalizations it adds.
\<close>

definition rq_live :: "64 word \<Rightarrow> request \<Rightarrow> bool" where
  "rq_live jiffies rq =
     (test_bit REQ_ATOM_STARTED (atomic_flags rq) \<and> \<not> time_after_eq jiffies (deadline rq))"

definition timeout_answer ::
    "timeout_fn option \<Rightarrow> request \<Rightarrow> bool \<Rightarrow> blk_eh_timer_return \<times> request" where
  "timeout_answer ops_timeout rq reserved =
     (case ops_timeout of None \<Rightarrow> (BLK_EH_RESET_TIMER, snd (blk_mark_rq_complete rq))
      | Some handler \<Rightarrow> handler (snd (blk_mark_rq_complete rq)) reserved)"

definition expired_rq :: "timeout_fn option \<Rightarrow> 64 word \<Rightarrow> request \<times> bool \<Rightarrow> request \<times> bool" where
  "expired_rq ops_timeout jiffies x =
     (fst (blk_mq_check_expired ops_timeout jiffies False (fst x) (snd x)
             (\<lparr> data_next = 0, data_next_set = 0 \<rparr>, [])), snd x)"

definition expired_log ::
    "timeout_fn option \<Rightarrow> 64 word \<Rightarrow> bool \<Rightarrow> request \<times> bool \<Rightarrow> completion list" where
  "expired_log ops_timeout jiffies softirq_done_fn x =
     snd (snd (blk_mq_check_expired ops_timeout jiffies softirq_done_fn (fst x) (snd x)
                 (\<lparr> data_next = 0, data_next_set = 0 \<rparr>, [])))"

lemma started_after_mark:
  "test_bit REQ_ATOM_STARTED (atomic_flags (snd (blk_mark_rq_complete rq)))
     = test_bit REQ_ATOM_STARTED (atomic_flags rq)"
  by (simp add: blk_mark_rq_complete_def test_bit_def REQ_ATOM_STARTED_def REQ_ATOM_COMPLETE_def
      bit_simps)

lemma rq_timed_out_rq:
  "fst (blk_mq_rq_timed_out h j sd rq r log) = fst (blk_mq_rq_timed_out h j sd' rq r log')"
  by (simp add: blk_mq_rq_timed_out_def
      split: option.splits prod.splits blk_eh_timer_return.splits)

lemma rq_timed_out_log:
  "snd (blk_mq_rq_timed_out h j sd rq r log) = log @ snd (blk_mq_rq_timed_out h j sd rq r [])"
  by (simp add: blk_mq_rq_timed_out_def blk_mq_complete_request_inner_def
      split: option.splits prod.splits blk_eh_timer_return.splits)

lemma check_expired_rq:
  "fst (blk_mq_check_expired h j sd rq r (d, log)) = fst (expired_rq h j (rq, r))"
  using rq_timed_out_rq [of h j sd "snd (blk_mark_rq_complete rq)" r log False "[]"]
  by (auto simp: expired_rq_def blk_mq_check_expired_def split: prod.splits bool.splits)

lemma check_expired_log:
  "snd (snd (blk_mq_check_expired h j sd rq r (d, log))) = log @ expired_log h j sd (rq, r)"
  using rq_timed_out_log [of h j sd "snd (blk_mark_rq_complete rq)" r log]
  by (auto simp: expired_log_def blk_mq_check_expired_def split: prod.splits bool.splits)

lemma check_expired_data:
  "fst (snd (blk_mq_check_expired h j sd rq r (d, log)))
     = (if rq_live j rq \<and> (data_next_set d = 0 \<or> time_after (data_next d) (deadline rq))
        then \<lparr> data_next = deadline rq, data_next_set = 1 \<rparr> else d)"
  by (auto simp: blk_mq_check_expired_def rq_live_def blk_mark_rq_complete_def
      split: prod.splits bool.splits)

lemma busy_iter_requests:
  "fst (blk_mq_queue_tag_busy_iter (blk_mq_check_expired h j sd) busy (d, log))
     = map (expired_rq h j) busy"
proof (induction busy arbitrary: d log)
  case Nil
  show ?case by simp
next
  case (Cons x rest)
  obtain rq r where x: "x = (rq, r)" by (cases x)
  obtain rq' d' log' where c: "blk_mq_check_expired h j sd rq r (d, log) = (rq', d', log')"
    by (cases "blk_mq_check_expired h j sd rq r (d, log)") auto
  have "rq' = fst (expired_rq h j (rq, r))"
    using check_expired_rq [of h j sd rq r d log] c by simp
  then have e: "expired_rq h j (rq, r) = (rq', r)"
    by (simp add: expired_rq_def)
  show ?case
    using Cons.IH [of d' log'] by (auto simp: x c e split: prod.splits)
qed

lemma busy_iter_log:
  "snd (snd (blk_mq_queue_tag_busy_iter (blk_mq_check_expired h j sd) busy (d, log)))
     = log @ concat (map (expired_log h j sd) busy)"
proof (induction busy arbitrary: d log)
  case Nil
  show ?case by simp
next
  case (Cons x rest)
  obtain rq r where x: "x = (rq, r)" by (cases x)
  obtain rq' d' log' where c: "blk_mq_check_expired h j sd rq r (d, log) = (rq', d', log')"
    by (cases "blk_mq_check_expired h j sd rq r (d, log)") auto
  have l: "log' = log @ expired_log h j sd (rq, r)"
    using check_expired_log [of h j sd rq r d log] c by simp
  show ?case
    using Cons.IH [of d' log'] by (auto simp: x c l split: prod.splits)
qed

lemma busy_iter_data_step:
  "fst (snd (blk_mq_queue_tag_busy_iter (blk_mq_check_expired h j sd) ((rq, r) # rest) (d, log)))
     = fst (snd (blk_mq_queue_tag_busy_iter (blk_mq_check_expired h j sd) rest
          (fst (snd (blk_mq_check_expired h j sd rq r (d, log))),
           snd (snd (blk_mq_check_expired h j sd rq r (d, log))))))"
  by (simp split: prod.splits)

lemma scan_data:
  assumes "data_next_set d \<noteq> 0 \<longrightarrow> \<not> time_after_eq j (data_next d)"
  shows "(data_next_set (fst (snd (blk_mq_queue_tag_busy_iter (blk_mq_check_expired h j sd) busy (d, log)))) \<noteq> 0
          \<longleftrightarrow> data_next_set d \<noteq> 0 \<or> (\<exists>x \<in> set busy. rq_live j (fst x)))
     \<and> (data_next_set (fst (snd (blk_mq_queue_tag_busy_iter (blk_mq_check_expired h j sd) busy (d, log)))) \<noteq> 0
          \<longrightarrow> \<not> time_after_eq j (data_next (fst (snd (blk_mq_queue_tag_busy_iter (blk_mq_check_expired h j sd) busy (d, log)))))
            \<and> ((data_next_set d \<noteq> 0
                 \<and> data_next (fst (snd (blk_mq_queue_tag_busy_iter (blk_mq_check_expired h j sd) busy (d, log)))) = data_next d)
               \<or> (\<exists>x \<in> set busy. rq_live j (fst x)
                    \<and> deadline (fst x) = data_next (fst (snd (blk_mq_queue_tag_busy_iter (blk_mq_check_expired h j sd) busy (d, log))))))
            \<and> (data_next_set d \<noteq> 0 \<longrightarrow>
                  data_next (fst (snd (blk_mq_queue_tag_busy_iter (blk_mq_check_expired h j sd) busy (d, log)))) - j
                    \<le> data_next d - j)
            \<and> (\<forall>x \<in> set busy. rq_live j (fst x) \<longrightarrow>
                  data_next (fst (snd (blk_mq_queue_tag_busy_iter (blk_mq_check_expired h j sd) busy (d, log)))) - j
                    \<le> deadline (fst x) - j))"
  using assms
proof (induction busy arbitrary: d log)
  case Nil
  then show ?case by simp
next
  case (Cons x rest)
  obtain rq r where x: "x = (rq, r)" by (cases x)
  define d1 where "d1 = fst (snd (blk_mq_check_expired h j sd rq r (d, log)))"
  define log1 where "log1 = snd (snd (blk_mq_check_expired h j sd rq r (d, log)))"
  define d' where "d' = fst (snd (blk_mq_queue_tag_busy_iter (blk_mq_check_expired h j sd) rest (d1, log1)))"
  have res: "fst (snd (blk_mq_queue_tag_busy_iter (blk_mq_check_expired h j sd) (x # rest) (d, log))) = d'"
    unfolding x d'_def d1_def log1_def by (rule busy_iter_data_step)
  have d1: "d1 = (if rq_live j rq \<and> (data_next_set d = 0 \<or> time_after (data_next d) (deadline rq))
        then \<lparr> data_next = deadline rq, data_next_set = 1 \<rparr> else d)"
    unfolding d1_def by (rule check_expired_data)
  have pre1: "data_next_set d1 \<noteq> 0 \<longrightarrow> \<not> time_after_eq j (data_next d1)"
    using Cons.prems by (auto simp: d1 rq_live_def)
  note IH = Cons.IH [OF pre1, of log1, folded d'_def]
  show ?case
  proof (cases "rq_live j rq")
    case False
    then have "d1 = d" by (simp add: d1)
    with IH False show ?thesis unfolding res by (auto simp: x)
  next
    case live: True
    then have unexp: "\<not> time_after_eq j (deadline rq)" by (simp add: rq_live_def)
    show ?thesis
    proof (cases "data_next_set d = 0")
      case True
      then have "d1 = \<lparr> data_next = deadline rq, data_next_set = 1 \<rparr>" using live by (simp add: d1)
      with IH live True show ?thesis unfolding res by (auto simp: x)
    next
      case dset: False
      then have dun: "\<not> time_after_eq j (data_next d)" using Cons.prems by simp
      have cmp: "time_after (data_next d) (deadline rq) \<longleftrightarrow> deadline rq - j < data_next d - j"
        by (rule time_after_unexpired [OF dun unexp])
      show ?thesis
      proof (cases "time_after (data_next d) (deadline rq)")
        case True
        then have e: "d1 = \<lparr> data_next = deadline rq, data_next_set = 1 \<rparr>" using live by (simp add: d1)
        from True cmp have lt: "deadline rq - j < data_next d - j" by simp
        from IH e have le: "data_next d' - j \<le> deadline rq - j" by simp
        from le lt have "data_next d' - j \<le> data_next d - j" by simp
        with IH e live le show ?thesis unfolding res by (auto simp: x)
      next
        case False
        then have e: "d1 = d" by (simp add: d1 dset)
        from False cmp have ge: "data_next d - j \<le> deadline rq - j" by simp
        from IH e dset have le: "data_next d' - j \<le> data_next d - j" by simp
        from le ge have "data_next d' - j \<le> deadline rq - j" by simp
        with IH e live dset le show ?thesis unfolding res by (auto simp: x)
      qed
    qed
  qed
qed


lemma check_expired_not_started:
  "\<not> test_bit REQ_ATOM_STARTED (atomic_flags rq) \<Longrightarrow>
   blk_mq_check_expired h j sd rq r (d, log) = (rq, d, log)"
  by (simp add: blk_mq_check_expired_def)

lemma check_expired_already_complete:
  "test_bit REQ_ATOM_STARTED (atomic_flags rq) \<Longrightarrow> time_after_eq j (deadline rq) \<Longrightarrow>
   test_bit REQ_ATOM_COMPLETE (atomic_flags rq) \<Longrightarrow>
   blk_mq_check_expired h j sd rq r (d, log) = (rq, d, log)"
  by (simp add: blk_mq_check_expired_def blk_mark_rq_complete_def test_bit_def set_bit_idem)

lemma check_expired_timed_out:
  assumes "test_bit REQ_ATOM_STARTED (atomic_flags rq)" "time_after_eq j (deadline rq)"
    "\<not> test_bit REQ_ATOM_COMPLETE (atomic_flags rq)"
  shows "blk_mq_check_expired h j sd rq r (d, log) =
     (case timeout_answer h rq r of
        (BLK_EH_HANDLED, rq') \<Rightarrow>
          (rq', d,
           log @ [\<lparr> done_rq = rq_id rq', done_errors = errors rq',
                    done_by = (if sd then Ipi_complete else End_request) \<rparr>])
      | (BLK_EH_RESET_TIMER, rq') \<Rightarrow> (blk_clear_rq_complete (blk_add_timer j rq'), d, log)
      | (BLK_EH_NOT_HANDLED, rq') \<Rightarrow> (rq', d, log)
      | (BLK_EH_OTHER v, rq') \<Rightarrow> (rq', d, log))"
proof -
  have st: "test_bit REQ_ATOM_STARTED (atomic_flags (snd (blk_mark_rq_complete rq)))"
    using assms(1) by (simp add: started_after_mark)
  have tm: "blk_mq_rq_timed_out h j sd (snd (blk_mark_rq_complete rq)) r log =
     (case timeout_answer h rq r of
        (BLK_EH_HANDLED, rq') \<Rightarrow>
          (rq',
           log @ [\<lparr> done_rq = rq_id rq', done_errors = errors rq',
                    done_by = (if sd then Ipi_complete else End_request) \<rparr>])
      | (BLK_EH_RESET_TIMER, rq') \<Rightarrow> (blk_clear_rq_complete (blk_add_timer j rq'), log)
      | (BLK_EH_NOT_HANDLED, rq') \<Rightarrow> (rq', log)
      | (BLK_EH_OTHER v, rq') \<Rightarrow> (rq', log))"
  proof -
    have v: "(case h of None \<Rightarrow> (BLK_EH_RESET_TIMER, snd (blk_mark_rq_complete rq))
              | Some handler \<Rightarrow> handler (snd (blk_mark_rq_complete rq)) r) = timeout_answer h rq r"
      by (simp add: timeout_answer_def)
    obtain verdict rq' where a: "timeout_answer h rq r = (verdict, rq')"
      by (cases "timeout_answer h rq r") auto
    show ?thesis
      unfolding blk_mq_rq_timed_out_def v a
      using st
      by (cases verdict) (simp_all add: blk_mq_complete_request_inner_def)
  qed
  have "blk_mq_check_expired h j sd rq r (d, log) =
      (case blk_mq_rq_timed_out h j sd (snd (blk_mark_rq_complete rq)) r log of
         (rq'', log') \<Rightarrow> (rq'', d, log'))"
    using assms by (simp add: blk_mq_check_expired_def blk_mark_rq_complete_def)
  then show ?thesis
    by (simp add: tm split: blk_eh_timer_return.splits prod.splits)
qed

lemma timeout_answer_no_handler:
  "\<not> test_bit REQ_ATOM_COMPLETE (atomic_flags rq) \<Longrightarrow>
   blk_clear_rq_complete (blk_add_timer j (snd (timeout_answer None rq r)))
     = rq\<lparr>deadline := j + timeout rq\<rparr>"
  by (simp add: timeout_answer_def blk_clear_rq_complete_def blk_add_timer_def
      blk_mark_rq_complete_def test_bit_def unset_set_bit_clear)

lemma check_expired_not_yet:
  "test_bit REQ_ATOM_STARTED (atomic_flags rq) \<Longrightarrow> \<not> time_after_eq j (deadline rq) \<Longrightarrow>
   blk_mq_check_expired h j sd rq r (d, log) =
     (rq, (if data_next_set d = 0 \<or> time_after (data_next d) (deadline rq)
           then d\<lparr>data_next := deadline rq, data_next_set := 1\<rparr> else d), log)"
  by (simp add: blk_mq_check_expired_def)

text \<open>
  C7. What the scan does with one request: nothing when it is not started; nothing
  when it is started and expired but already complete; when it is started, expired and
  not complete, it sets \<open>REQ_ATOM_COMPLETE\<close> and asks the handler (\<open>timeout_answer\<close>),
  and then, with the request as the handler left it, finalizes it on "handled", gives it a
  new deadline and clears \<open>REQ_ATOM_COMPLETE\<close> on "reset-timer" (the answer taken when
  the driver has no handler: the request is then as before but for the new deadline), and
  does nothing more to it on "not-handled"; when it is started and not expired, the
  request is unchanged and \<open>next\<close> becomes its deadline if none was set or the one set
  is later. Over a whole scan: every request in use comes back as
  \<open>blk_mq_check_expired\<close> leaves that request, the finalizations of the scan are those
  of its requests, in order, \<open>next_set\<close> comes back set exactly when some request is
  started and unexpired, \<open>next\<close> is then the deadline of such a request, and none of
  them has an earlier deadline (measured from \<open>jiffies\<close>).
\<close>

theorem blk_mq_check_expired_scan:
  "(\<not> test_bit REQ_ATOM_STARTED (atomic_flags rq) \<longrightarrow>
      blk_mq_check_expired h j sd rq r (d, log) = (rq, d, log))
   \<and> (test_bit REQ_ATOM_STARTED (atomic_flags rq) \<and> time_after_eq j (deadline rq)
        \<and> test_bit REQ_ATOM_COMPLETE (atomic_flags rq) \<longrightarrow>
      blk_mq_check_expired h j sd rq r (d, log) = (rq, d, log))
   \<and> (h = Some handler \<longrightarrow>
      timeout_answer h rq r
        = handler (rq\<lparr>atomic_flags := set_bit REQ_ATOM_COMPLETE (atomic_flags rq)\<rparr>) r)
   \<and> (h = None \<longrightarrow>
      timeout_answer h rq r
        = (BLK_EH_RESET_TIMER,
           rq\<lparr>atomic_flags := set_bit REQ_ATOM_COMPLETE (atomic_flags rq)\<rparr>))
   \<and> (test_bit REQ_ATOM_STARTED (atomic_flags rq) \<and> time_after_eq j (deadline rq)
        \<and> \<not> test_bit REQ_ATOM_COMPLETE (atomic_flags rq)
        \<and> timeout_answer h rq r = (BLK_EH_HANDLED, rq') \<longrightarrow>
      blk_mq_check_expired h j sd rq r (d, log) =
        (rq', d,
         log @ [\<lparr> done_rq = rq_id rq', done_errors = errors rq',
                  done_by = (if sd then Ipi_complete else End_request) \<rparr>]))
   \<and> (test_bit REQ_ATOM_STARTED (atomic_flags rq) \<and> time_after_eq j (deadline rq)
        \<and> \<not> test_bit REQ_ATOM_COMPLETE (atomic_flags rq)
        \<and> timeout_answer h rq r = (BLK_EH_RESET_TIMER, rq') \<longrightarrow>
      blk_mq_check_expired h j sd rq r (d, log) =
        (rq'\<lparr>deadline := j + timeout rq',
             atomic_flags := unset_bit REQ_ATOM_COMPLETE (atomic_flags rq')\<rparr>, d, log))
   \<and> (test_bit REQ_ATOM_STARTED (atomic_flags rq) \<and> time_after_eq j (deadline rq)
        \<and> \<not> test_bit REQ_ATOM_COMPLETE (atomic_flags rq) \<and> h = None \<longrightarrow>
      blk_mq_check_expired h j sd rq r (d, log) = (rq\<lparr>deadline := j + timeout rq\<rparr>, d, log))
   \<and> (test_bit REQ_ATOM_STARTED (atomic_flags rq) \<and> time_after_eq j (deadline rq)
        \<and> \<not> test_bit REQ_ATOM_COMPLETE (atomic_flags rq)
        \<and> timeout_answer h rq r = (BLK_EH_NOT_HANDLED, rq') \<longrightarrow>
      blk_mq_check_expired h j sd rq r (d, log) = (rq', d, log))
   \<and> (test_bit REQ_ATOM_STARTED (atomic_flags rq) \<and> \<not> time_after_eq j (deadline rq) \<longrightarrow>
      blk_mq_check_expired h j sd rq r (d, log) =
        (rq, (if data_next_set d = 0 \<or> time_after (data_next d) (deadline rq)
              then d\<lparr>data_next := deadline rq, data_next_set := 1\<rparr> else d), log))
   \<and> fst (blk_mq_timeout_scan h j sd busy) = map (expired_rq h j) busy
   \<and> snd (snd (blk_mq_timeout_scan h j sd busy)) = concat (map (expired_log h j sd) busy)
   \<and> expired_rq h j (rq, r) = (fst (blk_mq_check_expired h j sd rq r (d, log)), r)
   \<and> log @ expired_log h j sd (rq, r) = snd (snd (blk_mq_check_expired h j sd rq r (d, log)))
   \<and> ((data_next_set (fst (snd (blk_mq_timeout_scan h j sd busy))) \<noteq> 0)
        = (\<exists>x \<in> set busy. rq_live j (fst x)))
   \<and> (data_next_set (fst (snd (blk_mq_timeout_scan h j sd busy))) \<noteq> 0 \<longrightarrow>
        (\<exists>x \<in> set busy. rq_live j (fst x)
            \<and> deadline (fst x) = data_next (fst (snd (blk_mq_timeout_scan h j sd busy)))))
   \<and> (\<forall>x \<in> set busy. rq_live j (fst x) \<longrightarrow>
        data_next (fst (snd (blk_mq_timeout_scan h j sd busy))) - j \<le> deadline (fst x) - j)"
proof -
  have scan: "(data_next_set (fst (snd (blk_mq_timeout_scan h j sd busy))) \<noteq> 0)
        = (\<exists>x \<in> set busy. rq_live j (fst x))"
    "data_next_set (fst (snd (blk_mq_timeout_scan h j sd busy))) \<noteq> 0 \<longrightarrow>
        (\<exists>x \<in> set busy. rq_live j (fst x)
            \<and> deadline (fst x) = data_next (fst (snd (blk_mq_timeout_scan h j sd busy))))"
    "\<forall>x \<in> set busy. rq_live j (fst x) \<longrightarrow>
        data_next (fst (snd (blk_mq_timeout_scan h j sd busy))) - j \<le> deadline (fst x) - j"
    using scan_data [of "\<lparr> data_next = 0, data_next_set = 0 \<rparr>" j h sd busy "[]"]
    unfolding blk_mq_timeout_scan_def by auto
  have all: "fst (blk_mq_timeout_scan h j sd busy) = map (expired_rq h j) busy"
    "snd (snd (blk_mq_timeout_scan h j sd busy)) = concat (map (expired_log h j sd) busy)"
    unfolding blk_mq_timeout_scan_def
    using busy_iter_requests [of h j sd busy "\<lparr> data_next = 0, data_next_set = 0 \<rparr>" "[]"]
      busy_iter_log [of h j sd busy "\<lparr> data_next = 0, data_next_set = 0 \<rparr>" "[]"]
    by simp_all
  have one: "expired_rq h j (rq, r) = (fst (blk_mq_check_expired h j sd rq r (d, log)), r)"
    "log @ expired_log h j sd (rq, r) = snd (snd (blk_mq_check_expired h j sd rq r (d, log)))"
    using check_expired_rq [of h j sd rq r d log] check_expired_log [of h j sd rq r d log]
    by (simp_all add: expired_rq_def)
  have ans: "h = Some handler \<longrightarrow>
      timeout_answer h rq r
        = handler (rq\<lparr>atomic_flags := set_bit REQ_ATOM_COMPLETE (atomic_flags rq)\<rparr>) r"
    "h = None \<longrightarrow>
      timeout_answer h rq r
        = (BLK_EH_RESET_TIMER,
           rq\<lparr>atomic_flags := set_bit REQ_ATOM_COMPLETE (atomic_flags rq)\<rparr>)"
    by (simp_all add: timeout_answer_def blk_mark_rq_complete_def)
  have t: "test_bit REQ_ATOM_STARTED (atomic_flags rq) \<and> time_after_eq j (deadline rq)
        \<and> \<not> test_bit REQ_ATOM_COMPLETE (atomic_flags rq)
        \<and> timeout_answer h rq r = (BLK_EH_HANDLED, rq') \<longrightarrow>
      blk_mq_check_expired h j sd rq r (d, log) =
        (rq', d,
         log @ [\<lparr> done_rq = rq_id rq', done_errors = errors rq',
                  done_by = (if sd then Ipi_complete else End_request) \<rparr>])"
    "test_bit REQ_ATOM_STARTED (atomic_flags rq) \<and> time_after_eq j (deadline rq)
        \<and> \<not> test_bit REQ_ATOM_COMPLETE (atomic_flags rq)
        \<and> timeout_answer h rq r = (BLK_EH_RESET_TIMER, rq') \<longrightarrow>
      blk_mq_check_expired h j sd rq r (d, log) =
        (rq'\<lparr>deadline := j + timeout rq',
             atomic_flags := unset_bit REQ_ATOM_COMPLETE (atomic_flags rq')\<rparr>, d, log)"
    "test_bit REQ_ATOM_STARTED (atomic_flags rq) \<and> time_after_eq j (deadline rq)
        \<and> \<not> test_bit REQ_ATOM_COMPLETE (atomic_flags rq)
        \<and> timeout_answer h rq r = (BLK_EH_NOT_HANDLED, rq') \<longrightarrow>
      blk_mq_check_expired h j sd rq r (d, log) = (rq', d, log)"
    using check_expired_timed_out [of rq j h sd r d log]
    by (simp_all add: blk_clear_rq_complete_def blk_add_timer_def)
  have none: "test_bit REQ_ATOM_STARTED (atomic_flags rq) \<and> time_after_eq j (deadline rq)
        \<and> \<not> test_bit REQ_ATOM_COMPLETE (atomic_flags rq) \<and> h = None \<longrightarrow>
      blk_mq_check_expired h j sd rq r (d, log) = (rq\<lparr>deadline := j + timeout rq\<rparr>, d, log)"
  proof (intro impI, elim conjE)
    assume a: "test_bit REQ_ATOM_STARTED (atomic_flags rq)" "time_after_eq j (deadline rq)"
      "\<not> test_bit REQ_ATOM_COMPLETE (atomic_flags rq)" and h: "h = None"
    have v: "timeout_answer None rq r = (BLK_EH_RESET_TIMER, snd (timeout_answer None rq r))"
      by (simp add: timeout_answer_def)
    show "blk_mq_check_expired h j sd rq r (d, log) = (rq\<lparr>deadline := j + timeout rq\<rparr>, d, log)"
      using check_expired_timed_out [OF a, of None sd r d log] timeout_answer_no_handler [OF a(3), of j r]
      unfolding h by (subst (asm) v) simp
  qed
  have simple: "\<not> test_bit REQ_ATOM_STARTED (atomic_flags rq) \<longrightarrow>
      blk_mq_check_expired h j sd rq r (d, log) = (rq, d, log)"
    "test_bit REQ_ATOM_STARTED (atomic_flags rq) \<and> time_after_eq j (deadline rq)
        \<and> test_bit REQ_ATOM_COMPLETE (atomic_flags rq) \<longrightarrow>
      blk_mq_check_expired h j sd rq r (d, log) = (rq, d, log)"
    "test_bit REQ_ATOM_STARTED (atomic_flags rq) \<and> \<not> time_after_eq j (deadline rq) \<longrightarrow>
      blk_mq_check_expired h j sd rq r (d, log) =
        (rq, (if data_next_set d = 0 \<or> time_after (data_next d) (deadline rq)
              then d\<lparr>data_next := deadline rq, data_next_set := 1\<rparr> else d), log)"
    by (simp_all add: check_expired_not_started check_expired_already_complete
        check_expired_not_yet)
  from simple ans t none all one scan show ?thesis by blast
qed


text \<open>
  At \<open>jiffies = 100\<close>: a started request with deadline 90 under each verdict (the handler
  that answers "handled" also sets \<open>rq->errors\<close>), the same request already complete, a
  request not started, a started request with deadline 150, and a scan over three started
  requests with deadlines 150, 90 and 120.
\<close>

definition started_rq :: "nat \<Rightarrow> 64 word \<Rightarrow> request" where
  "started_rq i dl = (example_rq i 0)\<lparr>atomic_flags := 2, deadline := dl, timeout := 30\<rparr>"

definition example_busy :: "(request \<times> bool) list" where
  "example_busy = [(started_rq 1 150, False), (started_rq 2 90, False), (started_rq 3 120, False)]"

definition timeout_handled :: timeout_fn where
  "timeout_handled rq reserved = (BLK_EH_HANDLED, rq\<lparr>errors := -5\<rparr>)"

definition timeout_reset :: timeout_fn where
  "timeout_reset rq reserved = (BLK_EH_RESET_TIMER, rq)"

definition timeout_not_handled :: timeout_fn where
  "timeout_not_handled rq reserved = (BLK_EH_NOT_HANDLED, rq)"

theorem blk_mq_check_expired_scan_witness:
  "blk_mq_check_expired (Some timeout_handled) 100 False (started_rq 1 90) False
       (\<lparr> data_next = 0, data_next_set = 0 \<rparr>, [])
     = ((started_rq 1 90)\<lparr>atomic_flags := 3, errors := -5\<rparr>,
        \<lparr> data_next = 0, data_next_set = 0 \<rparr>,
        [\<lparr> done_rq = 1, done_errors = -5, done_by = End_request \<rparr>])
   \<and> blk_mq_check_expired (Some timeout_reset) 100 False (started_rq 1 90) False
       (\<lparr> data_next = 0, data_next_set = 0 \<rparr>, [])
     = ((started_rq 1 90)\<lparr>deadline := 130\<rparr>, \<lparr> data_next = 0, data_next_set = 0 \<rparr>, [])
   \<and> blk_mq_check_expired None 100 False (started_rq 1 90) False
       (\<lparr> data_next = 0, data_next_set = 0 \<rparr>, [])
     = ((started_rq 1 90)\<lparr>deadline := 130\<rparr>, \<lparr> data_next = 0, data_next_set = 0 \<rparr>, [])
   \<and> blk_mq_check_expired (Some timeout_not_handled) 100 False (started_rq 1 90) False
       (\<lparr> data_next = 0, data_next_set = 0 \<rparr>, [])
     = ((started_rq 1 90)\<lparr>atomic_flags := 3\<rparr>, \<lparr> data_next = 0, data_next_set = 0 \<rparr>, [])
   \<and> blk_mq_check_expired (Some timeout_handled) 100 False
       ((started_rq 1 90)\<lparr>atomic_flags := 3\<rparr>) False (\<lparr> data_next = 0, data_next_set = 0 \<rparr>, [])
     = ((started_rq 1 90)\<lparr>atomic_flags := 3\<rparr>, \<lparr> data_next = 0, data_next_set = 0 \<rparr>, [])
   \<and> blk_mq_check_expired (Some timeout_handled) 100 False (example_rq 1 0) False
       (\<lparr> data_next = 0, data_next_set = 0 \<rparr>, [])
     = (example_rq 1 0, \<lparr> data_next = 0, data_next_set = 0 \<rparr>, [])
   \<and> blk_mq_check_expired (Some timeout_handled) 100 False (started_rq 1 150) False
       (\<lparr> data_next = 0, data_next_set = 0 \<rparr>, [])
     = (started_rq 1 150, \<lparr> data_next = 150, data_next_set = 1 \<rparr>, [])
   \<and> fst (blk_mq_timeout_scan (Some timeout_handled) 100 False example_busy)
     = [(started_rq 1 150, False), ((started_rq 2 90)\<lparr>atomic_flags := 3, errors := -5\<rparr>, False),
        (started_rq 3 120, False)]
   \<and> snd (snd (blk_mq_timeout_scan (Some timeout_handled) 100 False example_busy))
     = [\<lparr> done_rq = 2, done_errors = -5, done_by = End_request \<rparr>]
   \<and> data_next_set (fst (snd (blk_mq_timeout_scan (Some timeout_handled) 100 False example_busy)))
       \<noteq> 0
   \<and> data_next (fst (snd (blk_mq_timeout_scan (Some timeout_handled) 100 False example_busy))) - 100
       \<le> 120 - 100
   \<and> data_next (fst (snd (blk_mq_timeout_scan (Some timeout_handled) 100 False example_busy))) = 120"
proof -
  let ?d0 = "\<lparr> data_next = 0, data_next_set = 0 \<rparr>"
  have st: "test_bit REQ_ATOM_STARTED (atomic_flags (started_rq i dl))" for i dl
    by (simp add: started_rq_def test_bit_def REQ_ATOM_STARTED_def)
  have nc: "\<not> test_bit REQ_ATOM_COMPLETE (atomic_flags (started_rq i dl))" for i dl
    by (simp add: started_rq_def test_bit_def REQ_ATOM_COMPLETE_def)
  have ex: "time_after_eq 100 (deadline (started_rq 1 90))"
    by (simp add: started_rq_def time_after_eq_def)
  have nex: "\<not> time_after_eq 100 (deadline (started_rq 1 150))"
    by (simp add: started_rq_def time_after_eq_def)
  have three: "set_bit REQ_ATOM_COMPLETE (2 :: 64 word) = 3"
    by (simp add: REQ_ATOM_COMPLETE_def)
  have two: "unset_bit REQ_ATOM_COMPLETE (3 :: 64 word) = 2"
    by (simp add: REQ_ATOM_COMPLETE_def)
  have c3: "test_bit REQ_ATOM_COMPLETE (atomic_flags ((started_rq 1 90)\<lparr>atomic_flags := 3\<rparr>))"
    "test_bit REQ_ATOM_STARTED (atomic_flags ((started_rq 1 90)\<lparr>atomic_flags := 3\<rparr>))"
    by (simp_all add: test_bit_def REQ_ATOM_COMPLETE_def REQ_ATOM_STARTED_def)
  have ex3: "time_after_eq 100 (deadline ((started_rq 1 90)\<lparr>atomic_flags := 3\<rparr>))"
    by (simp add: started_rq_def time_after_eq_def)
  have ns: "\<not> test_bit REQ_ATOM_STARTED (atomic_flags (example_rq 1 0))"
    by (simp add: example_rq_def test_bit_def)
  have a1: "timeout_answer (Some timeout_handled) (started_rq 1 90) False
      = (BLK_EH_HANDLED, (started_rq 1 90)\<lparr>atomic_flags := 3, errors := -5\<rparr>)"
    by (simp add: timeout_answer_def timeout_handled_def blk_mark_rq_complete_def started_rq_def
        three)
  have a2: "timeout_answer (Some timeout_reset) (started_rq 1 90) False
      = (BLK_EH_RESET_TIMER, (started_rq 1 90)\<lparr>atomic_flags := 3\<rparr>)"
    by (simp add: timeout_answer_def timeout_reset_def blk_mark_rq_complete_def started_rq_def
        three)
  have a3: "timeout_answer (Some timeout_not_handled) (started_rq 1 90) False
      = (BLK_EH_NOT_HANDLED, (started_rq 1 90)\<lparr>atomic_flags := 3\<rparr>)"
    by (simp add: timeout_answer_def timeout_not_handled_def blk_mark_rq_complete_def
        started_rq_def three)
  note one = blk_mq_check_expired_scan [where j = 100 and sd = False and r = False and d = ?d0
      and log = "[]" and busy = "[]"]
  from one [where rq = "started_rq 1 90" and h = "Some timeout_handled"
      and handler = timeout_handled
      and rq' = "(started_rq 1 90)\<lparr>atomic_flags := 3, errors := -5\<rparr>", THEN conjunct2, THEN conjunct2, THEN conjunct2, THEN conjunct2, THEN conjunct1] st nc ex a1
  have "blk_mq_check_expired (Some timeout_handled) 100 False (started_rq 1 90) False (?d0, [])
     = ((started_rq 1 90)\<lparr>atomic_flags := 3, errors := -5\<rparr>, ?d0,
        [] @ [\<lparr> done_rq = rq_id ((started_rq 1 90)\<lparr>atomic_flags := 3, errors := -5\<rparr>),
           done_errors = errors ((started_rq 1 90)\<lparr>atomic_flags := 3, errors := -5\<rparr>),
           done_by = (if False then Ipi_complete else End_request) \<rparr>])"
    by blast
  then have w1: "blk_mq_check_expired (Some timeout_handled) 100 False (started_rq 1 90) False (?d0, [])
     = ((started_rq 1 90)\<lparr>atomic_flags := 3, errors := -5\<rparr>, ?d0,
        [\<lparr> done_rq = 1, done_errors = -5, done_by = End_request \<rparr>])"
    by (simp add: started_rq_def example_rq_def)
  from one [where rq = "started_rq 1 90" and h = "Some timeout_reset" and handler = timeout_reset
      and rq' = "(started_rq 1 90)\<lparr>atomic_flags := 3\<rparr>", THEN conjunct2, THEN conjunct2, THEN conjunct2, THEN conjunct2, THEN conjunct2, THEN conjunct1] st nc ex a2
  have "blk_mq_check_expired (Some timeout_reset) 100 False (started_rq 1 90) False (?d0, [])
     = (((started_rq 1 90)\<lparr>atomic_flags := 3\<rparr>)
          \<lparr>deadline := 100 + timeout ((started_rq 1 90)\<lparr>atomic_flags := 3\<rparr>),
           atomic_flags := unset_bit REQ_ATOM_COMPLETE
             (atomic_flags ((started_rq 1 90)\<lparr>atomic_flags := 3\<rparr>))\<rparr>, ?d0, [])"
    by blast
  then have w2: "blk_mq_check_expired (Some timeout_reset) 100 False (started_rq 1 90) False (?d0, [])
     = ((started_rq 1 90)\<lparr>deadline := 130\<rparr>, ?d0, [])"
    by (simp add: started_rq_def example_rq_def two)
  from one [where rq = "started_rq 1 90" and h = None and handler = timeout_reset
      and rq' = "started_rq 1 90", THEN conjunct2, THEN conjunct2, THEN conjunct2, THEN conjunct2, THEN conjunct2, THEN conjunct2, THEN conjunct1] st nc ex
  have "blk_mq_check_expired None 100 False (started_rq 1 90) False (?d0, [])
     = ((started_rq 1 90)\<lparr>deadline := 100 + timeout (started_rq 1 90)\<rparr>, ?d0, [])"
    by blast
  then have w2n: "blk_mq_check_expired None 100 False (started_rq 1 90) False (?d0, [])
     = ((started_rq 1 90)\<lparr>deadline := 130\<rparr>, ?d0, [])"
    by (simp add: started_rq_def example_rq_def)
  from one [where rq = "started_rq 1 90" and h = "Some timeout_not_handled"
      and handler = timeout_not_handled
      and rq' = "(started_rq 1 90)\<lparr>atomic_flags := 3\<rparr>", THEN conjunct2, THEN conjunct2, THEN conjunct2, THEN conjunct2, THEN conjunct2, THEN conjunct2, THEN conjunct2, THEN conjunct1] st nc ex a3
  have w3: "blk_mq_check_expired (Some timeout_not_handled) 100 False (started_rq 1 90) False (?d0, [])
     = ((started_rq 1 90)\<lparr>atomic_flags := 3\<rparr>, ?d0, [])"
    by blast
  from one [where rq = "(started_rq 1 90)\<lparr>atomic_flags := 3\<rparr>" and h = "Some timeout_handled"
      and handler = timeout_handled and rq' = "started_rq 1 90", THEN conjunct2, THEN conjunct1]
    c3 ex3
  have w4: "blk_mq_check_expired (Some timeout_handled) 100 False
       ((started_rq 1 90)\<lparr>atomic_flags := 3\<rparr>) False (?d0, [])
     = ((started_rq 1 90)\<lparr>atomic_flags := 3\<rparr>, ?d0, [])"
    by blast
  from one [where rq = "example_rq 1 0" and h = "Some timeout_handled"
      and handler = timeout_handled and rq' = "started_rq 1 90", THEN conjunct1] ns
  have w5: "blk_mq_check_expired (Some timeout_handled) 100 False (example_rq 1 0) False (?d0, [])
     = (example_rq 1 0, ?d0, [])"
    by blast
  from one [where rq = "started_rq 1 150" and h = "Some timeout_handled"
      and handler = timeout_handled and rq' = "started_rq 1 90", THEN conjunct2, THEN conjunct2, THEN conjunct2, THEN conjunct2, THEN conjunct2, THEN conjunct2, THEN conjunct2, THEN conjunct2, THEN conjunct1] st nex
  have "blk_mq_check_expired (Some timeout_handled) 100 False (started_rq 1 150) False (?d0, [])
     = (started_rq 1 150,
        (if data_next_set ?d0 = 0 \<or> time_after (data_next ?d0) (deadline (started_rq 1 150))
         then ?d0\<lparr>data_next := deadline (started_rq 1 150), data_next_set := 1\<rparr> else ?d0), [])"
    by blast
  then have w6: "blk_mq_check_expired (Some timeout_handled) 100 False (started_rq 1 150) False (?d0, [])
     = (started_rq 1 150, \<lparr> data_next = 150, data_next_set = 1 \<rparr>, [])"
    by (simp add: started_rq_def)
  note scan = blk_mq_check_expired_scan [where busy = example_busy and j = 100 and sd = False
        and h = "Some timeout_handled" and handler = timeout_handled and rq = "started_rq 1 90"
        and rq' = "started_rq 1 90" and r = False and d = ?d0 and log = "[]"]
  have rqs: "map (expired_rq (Some timeout_handled) 100) example_busy
     = [(started_rq 1 150, False), ((started_rq 2 90)\<lparr>atomic_flags := 3, errors := -5\<rparr>, False),
        (started_rq 3 120, False)]"
    by code_simp
  have logs: "concat (map (expired_log (Some timeout_handled) 100 False) example_busy)
     = [\<lparr> done_rq = 2, done_errors = -5, done_by = End_request \<rparr>]"
    by code_simp
  from scan [THEN conjunct2, THEN conjunct2, THEN conjunct2, THEN conjunct2, THEN conjunct2, THEN conjunct2, THEN conjunct2, THEN conjunct2, THEN conjunct2, THEN conjunct1] have "fst (blk_mq_timeout_scan (Some timeout_handled) 100 False example_busy)
      = map (expired_rq (Some timeout_handled) 100) example_busy"
    by blast
  then have w7: "fst (blk_mq_timeout_scan (Some timeout_handled) 100 False example_busy)
     = [(started_rq 1 150, False), ((started_rq 2 90)\<lparr>atomic_flags := 3, errors := -5\<rparr>, False),
        (started_rq 3 120, False)]"
    by (simp only: rqs)
  from scan [THEN conjunct2, THEN conjunct2, THEN conjunct2, THEN conjunct2, THEN conjunct2, THEN conjunct2, THEN conjunct2, THEN conjunct2, THEN conjunct2, THEN conjunct2, THEN conjunct1] have "snd (snd (blk_mq_timeout_scan (Some timeout_handled) 100 False example_busy))
      = concat (map (expired_log (Some timeout_handled) 100 False) example_busy)"
    by blast
  then have w8: "snd (snd (blk_mq_timeout_scan (Some timeout_handled) 100 False example_busy))
     = [\<lparr> done_rq = 2, done_errors = -5, done_by = End_request \<rparr>]"
    by (simp only: logs)
  have live: "rq_live 100 (fst (started_rq 3 120, False))"
    by (simp add: rq_live_def st) (simp add: started_rq_def time_after_eq_def)
  have mem: "(started_rq 3 120, False) \<in> set example_busy"
    by (simp add: example_busy_def)
  from scan [THEN conjunct2, THEN conjunct2, THEN conjunct2, THEN conjunct2, THEN conjunct2, THEN conjunct2, THEN conjunct2, THEN conjunct2, THEN conjunct2, THEN conjunct2, THEN conjunct2, THEN conjunct2, THEN conjunct2, THEN conjunct1] live mem
  have w9: "data_next_set (fst (snd (blk_mq_timeout_scan (Some timeout_handled) 100 False
      example_busy))) \<noteq> 0"
    by blast
  from scan [THEN conjunct2, THEN conjunct2, THEN conjunct2, THEN conjunct2, THEN conjunct2, THEN conjunct2, THEN conjunct2, THEN conjunct2, THEN conjunct2, THEN conjunct2, THEN conjunct2, THEN conjunct2, THEN conjunct2, THEN conjunct2, THEN conjunct2] live mem
  have "data_next (fst (snd (blk_mq_timeout_scan (Some timeout_handled) 100 False example_busy)))
      - 100 \<le> deadline (fst (started_rq 3 120, False)) - 100"
    by blast
  then have w10: "data_next (fst (snd (blk_mq_timeout_scan (Some timeout_handled) 100 False
      example_busy))) - 100 \<le> 120 - 100"
    by (simp add: started_rq_def)
  have w11: "data_next (fst (snd (blk_mq_timeout_scan (Some timeout_handled) 100 False
      example_busy))) = 120"
    by code_simp
  from w1 w2 w2n w3 w4 w5 w6 w7 w8 w9 w10 w11 show ?thesis by blast
qed


subsection \<open>Driver tags\<close>

text \<open>
  Modelled from the spec: the tag pool of block/blk-mq-tag.c (\<open>blk_mq_get_tag\<close>,
  \<open>blk_mq_put_tag\<close>, \<open>blk_mq_tag_is_reserved\<close>, \<open>blk_mq_tag_busy\<close>) is not part of the
  two source files. The spec describes it as a bitmap of \<open>N\<close> tags with a reserved
  sub-range of the \<open>R\<close> lowest tags: a reserved acquisition only probes bits below \<open>R\<close>, a
  regular one only bits from \<open>R\<close> on, acquisition sets the bit it found (here the lowest free
  one; the rotating cursor of the spec only changes which free bit is taken) and fails without
  blocking when there is none (the dispatcher always passes \<open>BLK_MQ_REQ_NOWAIT\<close>), release
  clears the bit, and the pool is busy when a bit beyond the reserved range is set.
\<close>

definition blk_mq_get_tag :: "nat blk_mq_tags \<Rightarrow> bool \<Rightarrow> nat option \<times> nat blk_mq_tags" where
  "blk_mq_get_tag tg reserved =
     (let n = min (unat (nr_tags tg)) (length (bitmap_tags tg));
          r = min (unat (nr_reserved_tags tg)) n
      in case find (\<lambda>t. \<not> bitmap_tags tg ! t) (if reserved then [0 ..< r] else [r ..< n]) of
           None \<Rightarrow> (None, tg)
         | Some t \<Rightarrow> (Some t, tg\<lparr>bitmap_tags := (bitmap_tags tg)[t := True]\<rparr>))"

definition blk_mq_put_tag :: "nat blk_mq_tags \<Rightarrow> int \<Rightarrow> nat blk_mq_tags" where
  "blk_mq_put_tag tg t =
     (if 0 \<le> t then tg\<lparr>bitmap_tags := sbitmap_clear_bit (bitmap_tags tg) (nat t)\<rparr> else tg)"

definition blk_mq_tag_is_reserved :: "nat blk_mq_tags \<Rightarrow> int \<Rightarrow> bool" where
  "blk_mq_tag_is_reserved tg t = (0 \<le> t \<and> t < uint (nr_reserved_tags tg))"

definition blk_mq_tag_busy :: "nat blk_mq_tags \<Rightarrow> bool" where
  "blk_mq_tag_busy tg =
     (let n = min (unat (nr_tags tg)) (length (bitmap_tags tg));
          r = min (unat (nr_reserved_tags tg)) n
      in list_ex (\<lambda>t. bitmap_tags tg ! t) [r ..< n])"

text \<open>
  \<open>blk_mq_get_driver_tag(rq, hctx, wait)\<close> (blk-mq.c), as the dispatcher calls it, with
  \<open>wait = false\<close>:
  \<^verbatim>\<open>
    if (rq->tag != -1) goto done;
    if (blk_mq_tag_is_reserved(data.hctx->sched_tags, rq_aux(rq)->internal_tag))
        data.flags |= BLK_MQ_REQ_RESERVED;
    rq->tag = blk_mq_get_tag(&data);
    if (rq->tag >= 0) {
        if (blk_mq_tag_busy(data.hctx)) {
            rq->cmd_flags |= REQ_MQ_INFLIGHT;
            atomic_inc(&data.hctx->nr_active);
        }
        data.hctx->tags->rqs[rq->tag] = rq;
    }
  done:
    return rq->tag != -1;
  \<close>
  The hardware queue \<open>data.hctx\<close> is the one the request's CPU maps to; the dispatcher
  section models one hardware queue, the one every request of the batch maps to. The result
  is the return value, the request and the hardware queue after the call.
\<close>

definition blk_mq_get_driver_tag :: "request \<Rightarrow> blk_mq_hw_ctx \<Rightarrow> bool \<times> request \<times> blk_mq_hw_ctx" where
  "blk_mq_get_driver_tag rq hctx =
     (if tag rq \<noteq> -1 then (True, rq, hctx)
      else case blk_mq_get_tag (tags hctx)
                  (blk_mq_tag_is_reserved (sched_tags hctx) (internal_tag rq)) of
             (None, tg) \<Rightarrow> (False, rq\<lparr>tag := -1\<rparr>, hctx)
           | (Some t, tg) \<Rightarrow>
               (True,
                rq\<lparr>tag := int t, req_mq_inflight := (req_mq_inflight rq \<or> blk_mq_tag_busy tg)\<rparr>,
                hctx\<lparr>tags := tg\<lparr>rqs := (rqs tg)[t := Some (rq_id rq)]\<rparr>,
                      nr_active := (if blk_mq_tag_busy tg then nr_active hctx + 1
                                    else nr_active hctx)\<rparr>))"

text \<open>
  \<open>blk_mq_mark_tag_wait\<close> (blk-mq.c): without shared tags it sets the restart bit and
  tries the allocation once more; with shared tags it hooks the hardware queue into the tag
  wait queue unless it is hooked already, tries again, and unhooks on success. The field
  \<open>dispatch_wait_queued\<close> stands for \<open>!list_empty(&hctx->dispatch_wait.task_list)\<close>.
\<close>

definition blk_mq_mark_tag_wait :: "blk_mq_hw_ctx \<Rightarrow> request \<Rightarrow> bool \<times> request \<times> blk_mq_hw_ctx" where
  "blk_mq_mark_tag_wait this_hctx rq =
     (if \<not> tag_shared this_hctx
      then blk_mq_get_driver_tag rq
             (if \<not> sched_restart this_hctx then this_hctx\<lparr>sched_restart := True\<rparr> else this_hctx)
      else if dispatch_wait_queued this_hctx then (False, rq, this_hctx)
      else case blk_mq_get_driver_tag rq (this_hctx\<lparr>dispatch_wait_queued := True\<rparr>) of
             (False, rq', hctx') \<Rightarrow> (False, rq', hctx')
           | (True, rq', hctx') \<Rightarrow> (True, rq', hctx'\<lparr>dispatch_wait_queued := False\<rparr>))"

text \<open>
  \<open>__blk_mq_put_driver_tag\<close> and \<open>blk_mq_put_driver_tag\<close> (blk-mq.h):
  \<^verbatim>\<open>
    static inline void __blk_mq_put_driver_tag(struct blk_mq_hw_ctx *hctx, struct request *rq)
    {
        blk_mq_put_tag(hctx, hctx->tags, rq->mq_ctx, rq->tag);
        rq->tag = -1;
        if (rq->cmd_flags & REQ_MQ_INFLIGHT) {
            rq->cmd_flags &= ~REQ_MQ_INFLIGHT;
            atomic_dec(&hctx->nr_active);
        }
    }
    static inline void blk_mq_put_driver_tag(struct request *rq)
    {
        if (rq->tag == -1 || rq_aux(rq)->internal_tag == -1)
            return;
        hctx = blk_mq_map_queue(rq->q, rq->mq_ctx->cpu);
        __blk_mq_put_driver_tag(hctx, rq);
    }
  \<close>
  A request without a scheduler tag (\<open>internal_tag = -1\<close>) keeps its driver tag: it got the
  tag when it was allocated, and gives it back only when it is freed.
\<close>

definition blk_mq_put_driver_tag_inner :: "blk_mq_hw_ctx \<Rightarrow> request \<Rightarrow> request \<times> blk_mq_hw_ctx" where
  "blk_mq_put_driver_tag_inner hctx rq =
     (rq\<lparr>tag := -1, req_mq_inflight := False\<rparr>,
      hctx\<lparr>tags := blk_mq_put_tag (tags hctx) (tag rq),
            nr_active := (if req_mq_inflight rq then nr_active hctx - 1 else nr_active hctx)\<rparr>)"

definition blk_mq_put_driver_tag :: "blk_mq_hw_ctx \<Rightarrow> request \<Rightarrow> request \<times> blk_mq_hw_ctx" where
  "blk_mq_put_driver_tag hctx rq =
     (if tag rq = -1 \<or> internal_tag rq = -1 then (rq, hctx)
      else blk_mq_put_driver_tag_inner hctx rq)"

text \<open>
  \<open>blk_mq_start_request\<close> (called by the driver from its \<open>queue_rq\<close>) arms the timer,
  sets \<open>REQ_ATOM_STARTED\<close> and clears \<open>REQ_ATOM_COMPLETE\<close>;
  \<open>__blk_mq_requeue_request\<close> gives the driver tag back and clears \<open>REQ_ATOM_STARTED\<close>:
  \<^verbatim>\<open>
    static void __blk_mq_requeue_request(struct request *rq)
    {
        blk_mq_put_driver_tag(rq);
        if (test_and_clear_bit(REQ_ATOM_STARTED, &rq->atomic_flags)) { ... }
    }
  \<close>
\<close>

definition blk_mq_start_request :: "64 word \<Rightarrow> request \<Rightarrow> request" where
  "blk_mq_start_request jiffies rq =
     (let rq1 = blk_add_timer jiffies rq;
          rq2 = (if \<not> test_bit REQ_ATOM_STARTED (atomic_flags rq1)
                 then rq1\<lparr>atomic_flags := set_bit REQ_ATOM_STARTED (atomic_flags rq1)\<rparr> else rq1)
      in if test_bit REQ_ATOM_COMPLETE (atomic_flags rq2)
         then rq2\<lparr>atomic_flags := unset_bit REQ_ATOM_COMPLETE (atomic_flags rq2)\<rparr> else rq2)"

definition blk_mq_requeue_request_inner :: "blk_mq_hw_ctx \<Rightarrow> request \<Rightarrow> request \<times> blk_mq_hw_ctx" where
  "blk_mq_requeue_request_inner hctx rq =
     (case blk_mq_put_driver_tag hctx rq of
        (rq', hctx') \<Rightarrow>
          (rq'\<lparr>atomic_flags := unset_bit REQ_ATOM_STARTED (atomic_flags rq')\<rparr>, hctx'))"


subsection \<open>The dispatcher (\<open>blk_mq_dispatch_rq_list\<close>)\<close>

text \<open>
  The return codes of \<open>queue_rq\<close> (include/linux/blk-mq.h; the dispatcher names
  \<open>BLK_MQ_RQ_QUEUE_OK\<close>, \<open>_BUSY\<close>, \<open>_DEV_BUSY\<close> and \<open>_ERROR\<close>, every other value takes
  the \<open>default:\<close> branch of its switch), the argument \<open>struct blk_mq_queue_data\<close>, and the
  driver. The driver is a parameter: \<open>queue_rq\<close> maps the driver's state and the queue data
  to the return code, whether it called \<open>blk_mq_start_request\<close> on the request, and its new
  state; \<open>get_budget\<close> and \<open>put_budget\<close> are optional, as in
  \<open>blk_mq_get_dispatch_budget\<close> and \<open>blk_mq_put_dispatch_budget\<close>.
\<close>

datatype queue_rq_ret =
  BLK_MQ_RQ_QUEUE_OK | BLK_MQ_RQ_QUEUE_BUSY | BLK_MQ_RQ_QUEUE_ERROR | BLK_MQ_RQ_QUEUE_DEV_BUSY
  | BLK_MQ_RQ_QUEUE_OTHER int

definition queue_busy :: "queue_rq_ret \<Rightarrow> bool" where
  "queue_busy ret = (ret = BLK_MQ_RQ_QUEUE_BUSY \<or> ret = BLK_MQ_RQ_QUEUE_DEV_BUSY)"

record blk_mq_queue_data =
  bd_rq :: request
  bd_list :: bool
  bd_last :: bool

record 'd blk_mq_ops =
  queue_rq :: "'d \<Rightarrow> blk_mq_queue_data \<Rightarrow> queue_rq_ret \<times> bool \<times> 'd"
  get_budget :: "('d \<Rightarrow> bool \<times> 'd) option"
  put_budget :: "('d \<Rightarrow> 'd) option"

definition blk_mq_get_dispatch_budget :: "'d blk_mq_ops \<Rightarrow> 'd \<Rightarrow> bool \<times> 'd" where
  "blk_mq_get_dispatch_budget ops drv =
     (case get_budget ops of None \<Rightarrow> (True, drv) | Some f \<Rightarrow> f drv)"

definition blk_mq_put_dispatch_budget :: "'d blk_mq_ops \<Rightarrow> 'd \<Rightarrow> 'd" where
  "blk_mq_put_dispatch_budget ops drv =
     (case put_budget ops of None \<Rightarrow> drv | Some f \<Rightarrow> f drv)"

text \<open>
  The state of the dispatch loop: the local variables \<open>queued\<close>, \<open>errors\<close>, \<open>ret\<close>,
  \<open>no_tag\<close>, \<open>dptr\<close> (\<open>NULL\<close> or \<open>&driver_list\<close>) and \<open>list\<close>, the hardware queue and
  the driver. Two logs make the calls that leave the function observable: \<open>st_issued\<close>
  records every call of \<open>queue_rq\<close> (the request, its scheduler tag, the driver tag it was
  submitted with, the return code) and \<open>st_ended\<close> every call of
  \<open>blk_mq_end_request(rq, rq->errors)\<close>.
\<close>

record issue =
  is_rq :: nat
  is_sched_tag :: int
  is_tag :: int
  is_ret :: queue_rq_ret

record 'd dispatch_state =
  st_hctx :: blk_mq_hw_ctx
  st_drv :: 'd
  st_queued :: nat
  st_errors :: nat
  st_ret :: queue_rq_ret
  st_no_tag :: bool
  st_dptr :: bool
  st_issued :: "issue list"
  st_ended :: "(nat \<times> int) list"
  st_list :: "request list"

text \<open>
  The first half of the loop body, up to \<open>list_del_init(&rq->queuelist)\<close>: budget, then
  driver tag. The result \<open>False\<close> is a \<open>break\<close> with the request still on the list.
  \<^verbatim>\<open>
    rq = list_first_entry(list, struct request, queuelist);
    hctx = blk_mq_map_queue(rq->q, rq->mq_ctx->cpu);
    if (!got_budget && !blk_mq_get_dispatch_budget(hctx))
        break;
    if (!blk_mq_get_driver_tag(rq, NULL, false)) {
        if (!blk_mq_mark_tag_wait(&hctx, rq)) {
            blk_mq_put_dispatch_budget(hctx);
            if (hctx->flags & BLK_MQ_F_TAG_SHARED)
                no_tag = true;
            break;
        }
    }
    list_del_init(&rq->queuelist);
  \<close>
\<close>

definition dispatch_prepare ::
    "'d blk_mq_ops \<Rightarrow> bool \<Rightarrow> request \<Rightarrow> 'd dispatch_state \<Rightarrow> bool \<times> request \<times> 'd dispatch_state" where
  "dispatch_prepare ops got_budget rq st =
     (case (if got_budget then (True, st_drv st) else blk_mq_get_dispatch_budget ops (st_drv st)) of
        (False, drv1) \<Rightarrow> (False, rq, st\<lparr>st_drv := drv1\<rparr>)
      | (True, drv1) \<Rightarrow>
          (case blk_mq_get_driver_tag rq (st_hctx st) of
             (True, rq1, hctx1) \<Rightarrow> (True, rq1, st\<lparr>st_hctx := hctx1, st_drv := drv1\<rparr>)
           | (False, rq1, hctx1) \<Rightarrow>
               (case blk_mq_mark_tag_wait hctx1 rq1 of
                  (True, rq2, hctx2) \<Rightarrow> (True, rq2, st\<lparr>st_hctx := hctx2, st_drv := drv1\<rparr>)
                | (False, rq2, hctx2) \<Rightarrow>
                    (False, rq2,
                     st\<lparr>st_hctx := hctx2, st_drv := blk_mq_put_dispatch_budget ops drv1,
                        st_no_tag := (tag_shared hctx2 \<or> st_no_tag st)\<rparr>))))"

text \<open>
  The second half: the look at the next request, the call of the driver and the switch on
  its answer. \<open>peek_next\<close> computes \<open>bd.last\<close>, \<open>unpeek_next\<close> is the release of the
  next request's driver tag in the busy branch. \<open>EIO\<close> is the constant of errno-base.h.
  \<^verbatim>\<open>
    if (list_empty(list))
        bd.last = true;
    else {
        nxt = list_first_entry(list, struct request, queuelist);
        bd.last = !blk_mq_get_driver_tag(nxt, NULL, false);
    }
    ret = q->mq_ops->queue_rq(hctx, &bd);
    switch (ret) {
    case BLK_MQ_RQ_QUEUE_OK:
        queued++;
        break;
    case BLK_MQ_RQ_QUEUE_BUSY:
    case BLK_MQ_RQ_QUEUE_DEV_BUSY:
        if (!list_empty(list)) {
            nxt = list_first_entry(list, struct request, queuelist);
            blk_mq_put_driver_tag(nxt);
        }
        list_add(&rq->queuelist, list);
        __blk_mq_requeue_request(rq);
        break;
    default:
        pr_err(...);
    case BLK_MQ_RQ_QUEUE_ERROR:
        errors++;
        rq->errors = -EIO;
        blk_mq_end_request(rq, rq->errors);
        break;
    }
    if (ret == BLK_MQ_RQ_QUEUE_BUSY || ret == BLK_MQ_RQ_QUEUE_DEV_BUSY)
        break;
    if (!dptr && list->next != list->prev)
        dptr = &driver_list;
  \<close>
  The result \<open>False\<close> is the \<open>break\<close> on busy; the list returned is \<open>list\<close> after the
  body.
\<close>

definition EIO :: int where
  "EIO = 5"

definition peek_next :: "request list \<Rightarrow> blk_mq_hw_ctx \<Rightarrow> bool \<times> request list \<times> blk_mq_hw_ctx" where
  "peek_next rest hctx =
     (case rest of
        [] \<Rightarrow> (True, [], hctx)
      | nxt # others \<Rightarrow>
          (case blk_mq_get_driver_tag nxt hctx of
             (got, nxt', hctx') \<Rightarrow> (\<not> got, nxt' # others, hctx')))"

definition unpeek_next :: "request list \<Rightarrow> blk_mq_hw_ctx \<Rightarrow> request list \<times> blk_mq_hw_ctx" where
  "unpeek_next rest1 hctx1 =
     (case rest1 of
        [] \<Rightarrow> ([], hctx1)
      | nxt # others \<Rightarrow>
          (case blk_mq_put_driver_tag hctx1 nxt of
             (nxt', hctx') \<Rightarrow> (nxt' # others, hctx')))"

definition dispatch_submit ::
    "'d blk_mq_ops \<Rightarrow> 64 word \<Rightarrow> request \<Rightarrow> request list \<Rightarrow> 'd dispatch_state
      \<Rightarrow> bool \<times> request list \<times> 'd dispatch_state" where
  "dispatch_submit ops jiffies rq rest st =
     (case peek_next rest (st_hctx st) of
        (is_last, rest1, hctx1) \<Rightarrow>
          (case queue_rq ops (st_drv st) \<lparr> bd_rq = rq, bd_list = st_dptr st, bd_last = is_last \<rparr> of
             (ret, started, drv1) \<Rightarrow>
               (let rq_s = (if started then blk_mq_start_request jiffies rq else rq);
                    st1 = st\<lparr>st_hctx := hctx1, st_drv := drv1, st_ret := ret,
                             st_issued := st_issued st @
                               [\<lparr> is_rq = rq_id rq, is_sched_tag = internal_tag rq,
                                  is_tag = tag rq, is_ret = ret \<rparr>]\<rparr>
                in if ret = BLK_MQ_RQ_QUEUE_OK then
                     (True, rest1,
                      st1\<lparr>st_queued := st_queued st + 1,
                          st_dptr := (st_dptr st \<or> 2 \<le> length rest1)\<rparr>)
                   else if queue_busy ret then
                     (case unpeek_next rest1 hctx1 of
                        (rest2, hctx2) \<Rightarrow>
                          (case blk_mq_requeue_request_inner hctx2 rq_s of
                             (rq_r, hctx3) \<Rightarrow> (False, rq_r # rest2, st1\<lparr>st_hctx := hctx3\<rparr>)))
                   else
                     (True, rest1,
                      st1\<lparr>st_errors := st_errors st + 1,
                          st_ended := st_ended st @ [(rq_id rq, - EIO)],
                          st_dptr := (st_dptr st \<or> 2 \<le> length rest1)\<rparr>))))"

lemma dispatch_submit_length:
  "dispatch_submit ops j rq rest st = (True, l', st') \<Longrightarrow> length l' = length rest"
  by (auto simp: dispatch_submit_def peek_next_def Let_def split: prod.splits list.splits if_splits)

text \<open>
  The loop \<^verbatim>\<open>do { ... } while (!list_empty(list));\<close> of a non-empty list. It ends: every
  round that goes on has handed one request to the driver.
\<close>

function dispatch_loop ::
    "'d blk_mq_ops \<Rightarrow> 64 word \<Rightarrow> bool \<Rightarrow> request list \<Rightarrow> 'd dispatch_state \<Rightarrow> 'd dispatch_state" where
  "dispatch_loop ops jiffies got_budget [] st = st\<lparr>st_list := []\<rparr>"
| "dispatch_loop ops jiffies got_budget (rq # rest) st =
     (case dispatch_prepare ops got_budget rq st of
        (False, rq', st') \<Rightarrow> st'\<lparr>st_list := rq' # rest\<rparr>
      | (True, rq', st') \<Rightarrow>
          (case dispatch_submit ops jiffies rq' rest st' of
             (False, l', st'') \<Rightarrow> st''\<lparr>st_list := l'\<rparr>
           | (True, l', st'') \<Rightarrow> dispatch_loop ops jiffies got_budget l' st''))"
  by pat_completeness auto
termination
  by (relation "measure (\<lambda>(ops, jiffies, got_budget, l, st). length l)")
    (auto dest: dispatch_submit_length [OF sym])

text \<open>
  \<open>queued_to_index\<close>; \<open>BLK_MQ_MAX_DISPATCH_ORDER\<close> (include/linux/blk-mq.h) is the
  length of the array \<open>hctx->dispatched\<close> and is taken from there.
  \<^verbatim>\<open>
    if (!queued)
        return 0;
    return min(BLK_MQ_MAX_DISPATCH_ORDER - 1, ilog2(queued) + 1);
  \<close>
\<close>

fun ilog2 :: "nat \<Rightarrow> nat" where
  "ilog2 n = (if n < 2 then 0 else Suc (ilog2 (n div 2)))"

definition queued_to_index :: "nat \<Rightarrow> nat \<Rightarrow> nat" where
  "queued_to_index max_order queued =
     (if queued = 0 then 0 else min (max_order - 1) (ilog2 queued + 1))"

text \<open>
  \<open>blk_mq_update_dispatch_busy\<close>, with \<open>BLK_MQ_DISPATCH_BUSY_EWMA_WEIGHT = 8\<close> and
  \<open>BLK_MQ_DISPATCH_BUSY_EWMA_FACTOR = 4\<close>; \<open>ewma\<close> is an \<open>unsigned int\<close>, so the
  arithmetic is that of \<open>32 word\<close>. The argument \<open>elevator\<close> is
  \<open>hctx->queue->elevator != NULL\<close>.
  \<^verbatim>\<open>
    if (hctx->queue->elevator)
        return;
    ewma = hctx->dispatch_busy;
    if (!ewma && !busy)
        return;
    ewma *= BLK_MQ_DISPATCH_BUSY_EWMA_WEIGHT - 1;
    if (busy)
        ewma += 1 << BLK_MQ_DISPATCH_BUSY_EWMA_FACTOR;
    ewma /= BLK_MQ_DISPATCH_BUSY_EWMA_WEIGHT;
    hctx->dispatch_busy = ewma;
  \<close>
\<close>

definition blk_mq_update_dispatch_busy :: "bool \<Rightarrow> blk_mq_hw_ctx \<Rightarrow> bool \<Rightarrow> blk_mq_hw_ctx" where
  "blk_mq_update_dispatch_busy elevator hctx busy =
     (if elevator then hctx
      else if dispatch_busy hctx = 0 \<and> \<not> busy then hctx
      else hctx\<lparr>dispatch_busy :=
             (dispatch_busy hctx * (8 - 1) + (if busy then push_bit 4 1 else 0)) div 8\<rparr>)"

text \<open>
  What the function returns and leaves behind: the return value \<open>progress\<close>, the hardware
  queue, the driver, the two logs, the requests put on \<open>hctx->dispatch\<close>, and the queue
  run it asked for (\<open>blk_mq_run_hw_queue(hctx, true)\<close> or
  \<open>blk_mq_delay_run_hw_queue(hctx, BLK_MQ_RESOURCE_DELAY)\<close>, which run later).
\<close>

datatype rerun = No_rerun | Run_hw_queue | Delay_run_hw_queue nat

record 'd dispatch_result =
  progress :: bool
  res_hctx :: blk_mq_hw_ctx
  res_drv :: 'd
  res_issued :: "issue list"
  res_ended :: "(nat \<times> int) list"
  res_requeued :: "request list"
  res_rerun :: rerun

text \<open>
  The part after the loop:
  \<^verbatim>\<open>
    hctx->dispatched[queued_to_index(queued)]++;
    if (!list_empty(list)) {
        bool needs_restart;
        list_splice_init(list, &hctx->dispatch);
        needs_restart = blk_mq_sched_needs_restart(hctx);
        if (!needs_restart || (no_tag && list_empty_careful(&hctx->dispatch_wait.task_list)))
            blk_mq_run_hw_queue(hctx, true);
        else if (needs_restart && (ret == BLK_MQ_RQ_QUEUE_BUSY))
            blk_mq_delay_run_hw_queue(hctx, BLK_MQ_RESOURCE_DELAY);
        blk_mq_update_dispatch_busy(hctx, true);
        return false;
    } else
        blk_mq_update_dispatch_busy(hctx, false);
    if (ret == BLK_MQ_RQ_QUEUE_BUSY || ret == BLK_MQ_RQ_QUEUE_DEV_BUSY)
        return false;
    return (queued + errors) != 0;
  \<close>
\<close>

definition dispatch_finish :: "bool \<Rightarrow> 'd dispatch_state \<Rightarrow> 'd dispatch_result" where
  "dispatch_finish elevator st =
     (let idx = queued_to_index (length (dispatched (st_hctx st))) (st_queued st);
          hctx1 = (st_hctx st)\<lparr>dispatched :=
                     (dispatched (st_hctx st))[idx := dispatched (st_hctx st) ! idx + 1]\<rparr>
      in if st_list st \<noteq> [] then
           (let hctx2 = hctx1\<lparr>dispatch := st_list st @ dispatch hctx1\<rparr>;
                needs_restart = sched_restart hctx2;
                again = (if \<not> needs_restart \<or> (st_no_tag st \<and> \<not> dispatch_wait_queued hctx2)
                         then Run_hw_queue
                         else if needs_restart \<and> st_ret st = BLK_MQ_RQ_QUEUE_BUSY
                         then Delay_run_hw_queue 3
                         else No_rerun)
            in \<lparr> progress = False,
                 res_hctx = blk_mq_update_dispatch_busy elevator hctx2 True,
                 res_drv = st_drv st, res_issued = st_issued st, res_ended = st_ended st,
                 res_requeued = st_list st, res_rerun = again \<rparr>)
         else
           \<lparr> progress = (if queue_busy (st_ret st) then False
                         else st_queued st + st_errors st \<noteq> 0),
             res_hctx = blk_mq_update_dispatch_busy elevator hctx1 False,
             res_drv = st_drv st, res_issued = st_issued st, res_ended = st_ended st,
             res_requeued = [], res_rerun = No_rerun \<rparr>)"

text \<open>
  \<open>blk_mq_dispatch_rq_list(q, list, got_budget)\<close>: an empty list returns \<open>false\<close> at
  once; otherwise the loop starts with \<open>errors = queued = 0\<close>, \<open>ret = BLK_MQ_RQ_QUEUE_OK\<close>,
  \<open>no_tag = false\<close> and \<open>dptr = NULL\<close>.
\<close>

definition blk_mq_dispatch_rq_list ::
    "'d blk_mq_ops \<Rightarrow> bool \<Rightarrow> 64 word \<Rightarrow> request list \<Rightarrow> bool \<Rightarrow> blk_mq_hw_ctx \<Rightarrow> 'd
      \<Rightarrow> 'd dispatch_result" where
  "blk_mq_dispatch_rq_list ops elevator jiffies l got_budget hctx drv =
     (if l = [] then
        \<lparr> progress = False, res_hctx = hctx, res_drv = drv, res_issued = [], res_ended = [],
          res_requeued = [], res_rerun = No_rerun \<rparr>
      else
        dispatch_finish elevator
          (dispatch_loop ops jiffies got_budget l
             \<lparr> st_hctx = hctx, st_drv = drv, st_queued = 0, st_errors = 0,
               st_ret = BLK_MQ_RQ_QUEUE_OK, st_no_tag = False, st_dptr = False,
               st_issued = [], st_ended = [], st_list = l \<rparr>))"


subsection \<open>What one dispatch does\<close>

text \<open>
  A request is identified by its number and its scheduler tag, neither of which the
  dispatcher writes; \<open>hctx_frame\<close> lists the fields of the hardware queue that the tag
  functions leave alone.
\<close>

definition rq_key :: "request \<Rightarrow> nat \<times> int" where
  "rq_key rq = (rq_id rq, internal_tag rq)"

definition is_key :: "issue \<Rightarrow> nat \<times> int" where
  "is_key e = (is_rq e, is_sched_tag e)"

definition hctx_frame :: "blk_mq_hw_ctx \<Rightarrow> blk_mq_hw_ctx \<Rightarrow> bool" where
  "hctx_frame h h' =
     (dispatch_busy h' = dispatch_busy h \<and> dispatch h' = dispatch h
      \<and> dispatched h' = dispatched h \<and> tag_shared h' = tag_shared h
      \<and> ctx_map h' = ctx_map h \<and> ctxs h' = ctxs h \<and> sched_tags h' = sched_tags h)"

lemma hctx_frame_refl [simp]: "hctx_frame h h"
  by (simp add: hctx_frame_def)

lemma hctx_frame_trans: "hctx_frame a b \<Longrightarrow> hctx_frame b c \<Longrightarrow> hctx_frame a c"
  by (simp add: hctx_frame_def)

lemma blk_mq_get_driver_tag_props:
  assumes "blk_mq_get_driver_tag rq hctx = (got, rq', hctx')"
  shows "rq_id rq' = rq_id rq" "internal_tag rq' = internal_tag rq" "hctx_frame hctx hctx'"
    "got = (tag rq' \<noteq> -1)" "sched_restart hctx' = sched_restart hctx"
    "dispatch_wait_queued hctx' = dispatch_wait_queued hctx"
  using assms
  by (auto simp: blk_mq_get_driver_tag_def hctx_frame_def split: if_splits prod.splits option.splits)

lemma blk_mq_mark_tag_wait_props:
  assumes "blk_mq_mark_tag_wait hctx rq = (got, rq', hctx')"
  shows "rq_id rq' = rq_id rq" "internal_tag rq' = internal_tag rq" "hctx_frame hctx hctx'"
    "got \<longrightarrow> tag rq' \<noteq> -1"
proof -
  have "rq_id rq' = rq_id rq \<and> internal_tag rq' = internal_tag rq \<and> hctx_frame hctx hctx'
      \<and> (got \<longrightarrow> tag rq' \<noteq> -1)"
  proof (cases "tag_shared hctx")
    case False
    then have e: "blk_mq_get_driver_tag rq
             (if \<not> sched_restart hctx then hctx\<lparr>sched_restart := True\<rparr> else hctx) = (got, rq', hctx')"
      using assms by (simp add: blk_mq_mark_tag_wait_def)
    from blk_mq_get_driver_tag_props [OF e] show ?thesis
      by (auto simp: hctx_frame_def split: if_splits)
  next
    case shared: True
    show ?thesis
    proof (cases "dispatch_wait_queued hctx")
      case True
      with shared assms show ?thesis by (simp add: blk_mq_mark_tag_wait_def)
    next
      case False
      obtain g r h where e: "blk_mq_get_driver_tag rq (hctx\<lparr>dispatch_wait_queued := True\<rparr>) = (g, r, h)"
        by (cases "blk_mq_get_driver_tag rq (hctx\<lparr>dispatch_wait_queued := True\<rparr>)") auto
      from blk_mq_get_driver_tag_props [OF e] shared False assms e show ?thesis
        by (auto simp: blk_mq_mark_tag_wait_def hctx_frame_def split: if_splits)
    qed
  qed
  then show "rq_id rq' = rq_id rq" "internal_tag rq' = internal_tag rq" "hctx_frame hctx hctx'"
    "got \<longrightarrow> tag rq' \<noteq> -1" by simp_all
qed

lemma blk_mq_put_driver_tag_props:
  assumes "blk_mq_put_driver_tag hctx rq = (rq', hctx')"
  shows "rq_id rq' = rq_id rq" "internal_tag rq' = internal_tag rq" "hctx_frame hctx hctx'"
    "atomic_flags rq' = atomic_flags rq"
    "tag rq \<noteq> -1 \<and> internal_tag rq \<noteq> -1 \<longrightarrow>
       tag rq' = -1
       \<and> (0 \<le> tag rq \<longrightarrow> \<not> sbitmap_test_bit (bitmap_tags (tags hctx')) (nat (tag rq)))"
    "internal_tag rq = -1 \<longrightarrow> tag rq' = tag rq"
  using assms
  by (auto simp: blk_mq_put_driver_tag_def blk_mq_put_driver_tag_inner_def hctx_frame_def
      blk_mq_put_tag_def split: if_splits)

lemma blk_mq_start_request_props:
  "rq_id (blk_mq_start_request j rq) = rq_id rq"
  "internal_tag (blk_mq_start_request j rq) = internal_tag rq"
  "tag (blk_mq_start_request j rq) = tag rq"
  by (simp_all add: blk_mq_start_request_def blk_add_timer_def Let_def)

lemma blk_mq_requeue_request_inner_props:
  assumes "blk_mq_requeue_request_inner hctx rq = (rq', hctx')"
  shows "rq_id rq' = rq_id rq" "internal_tag rq' = internal_tag rq" "hctx_frame hctx hctx'"
    "\<not> test_bit REQ_ATOM_STARTED (atomic_flags rq')"
    "tag rq \<noteq> -1 \<and> internal_tag rq \<noteq> -1 \<longrightarrow>
       tag rq' = -1
       \<and> (0 \<le> tag rq \<longrightarrow> \<not> sbitmap_test_bit (bitmap_tags (tags hctx')) (nat (tag rq)))"
    "internal_tag rq = -1 \<longrightarrow> tag rq' = tag rq"
proof -
  obtain r h where e: "blk_mq_put_driver_tag hctx rq = (r, h)"
    by (cases "blk_mq_put_driver_tag hctx rq") auto
  with assms have rq': "rq' = r\<lparr>atomic_flags := unset_bit REQ_ATOM_STARTED (atomic_flags r)\<rparr>"
    and h: "hctx' = h"
    by (simp_all add: blk_mq_requeue_request_inner_def)
  from blk_mq_put_driver_tag_props [OF e] rq' h
  show "rq_id rq' = rq_id rq" "internal_tag rq' = internal_tag rq" "hctx_frame hctx hctx'"
    "tag rq \<noteq> -1 \<and> internal_tag rq \<noteq> -1 \<longrightarrow>
       tag rq' = -1
       \<and> (0 \<le> tag rq \<longrightarrow> \<not> sbitmap_test_bit (bitmap_tags (tags hctx')) (nat (tag rq)))"
    "internal_tag rq = -1 \<longrightarrow> tag rq' = tag rq"
    by simp_all
  from rq' show "\<not> test_bit REQ_ATOM_STARTED (atomic_flags rq')"
    by (simp add: test_bit_def REQ_ATOM_STARTED_def bit_simps)
qed

lemma dispatch_prepare_props:
  assumes "dispatch_prepare ops gb rq st = (ok, rq', st')"
  shows "rq_id rq' = rq_id rq" "internal_tag rq' = internal_tag rq"
    "hctx_frame (st_hctx st) (st_hctx st')"
    "st_issued st' = st_issued st" "st_ended st' = st_ended st"
    "st_queued st' = st_queued st" "st_errors st' = st_errors st" "st_ret st' = st_ret st"
    "ok \<longrightarrow> tag rq' \<noteq> -1"
proof -
  obtain b drv1 where bud: "(if gb then (True, st_drv st)
      else blk_mq_get_dispatch_budget ops (st_drv st)) = (b, drv1)"
    by (cases "if gb then (True, st_drv st) else blk_mq_get_dispatch_budget ops (st_drv st)") auto
  obtain g1 rq1 h1 where t1: "blk_mq_get_driver_tag rq (st_hctx st) = (g1, rq1, h1)"
    by (cases "blk_mq_get_driver_tag rq (st_hctx st)") auto
  obtain g2 rq2 h2 where t2: "blk_mq_mark_tag_wait h1 rq1 = (g2, rq2, h2)"
    by (cases "blk_mq_mark_tag_wait h1 rq1") auto
  note p1 = blk_mq_get_driver_tag_props [OF t1]
  note p2 = blk_mq_mark_tag_wait_props [OF t2]
  have fr2: "hctx_frame (st_hctx st) h2" using p1(3) p2(3) by (rule hctx_frame_trans)
  have "rq_id rq' = rq_id rq \<and> internal_tag rq' = internal_tag rq
    \<and> hctx_frame (st_hctx st) (st_hctx st')
    \<and> st_issued st' = st_issued st \<and> st_ended st' = st_ended st
    \<and> st_queued st' = st_queued st \<and> st_errors st' = st_errors st \<and> st_ret st' = st_ret st
    \<and> (ok \<longrightarrow> tag rq' \<noteq> -1)"
    using assms p1 p2 fr2
    by (cases b; cases g1; cases g2) (simp_all add: dispatch_prepare_def bud t1 t2, auto)
  then show "rq_id rq' = rq_id rq" "internal_tag rq' = internal_tag rq"
    "hctx_frame (st_hctx st) (st_hctx st')"
    "st_issued st' = st_issued st" "st_ended st' = st_ended st"
    "st_queued st' = st_queued st" "st_errors st' = st_errors st" "st_ret st' = st_ret st"
    "ok \<longrightarrow> tag rq' \<noteq> -1" by simp_all
qed

lemma peek_next_props:
  assumes "peek_next rest hctx = (is_last, rest1, hctx1)"
  shows "map rq_key rest1 = map rq_key rest" "hctx_frame hctx hctx1"
proof -
  have "map rq_key rest1 = map rq_key rest \<and> hctx_frame hctx hctx1"
  proof (cases rest)
    case Nil
    with assms show ?thesis by (simp add: peek_next_def)
  next
    case (Cons nxt others)
    obtain g n h where e: "blk_mq_get_driver_tag nxt hctx = (g, n, h)"
      by (cases "blk_mq_get_driver_tag nxt hctx") auto
    from blk_mq_get_driver_tag_props [OF e] assms Cons e show ?thesis
      by (auto simp: peek_next_def rq_key_def)
  qed
  then show "map rq_key rest1 = map rq_key rest" "hctx_frame hctx hctx1" by simp_all
qed

lemma unpeek_next_props:
  assumes "unpeek_next rest1 hctx1 = (rest2, hctx2)"
  shows "map rq_key rest2 = map rq_key rest1" "hctx_frame hctx1 hctx2"
proof -
  have "map rq_key rest2 = map rq_key rest1 \<and> hctx_frame hctx1 hctx2"
  proof (cases rest1)
    case Nil
    with assms show ?thesis by (simp add: unpeek_next_def)
  next
    case (Cons nxt others)
    obtain n h where e: "blk_mq_put_driver_tag hctx1 nxt = (n, h)"
      by (cases "blk_mq_put_driver_tag hctx1 nxt") auto
    from blk_mq_put_driver_tag_props [OF e] assms Cons e show ?thesis
      by (auto simp: unpeek_next_def rq_key_def)
  qed
  then show "map rq_key rest2 = map rq_key rest1" "hctx_frame hctx1 hctx2" by simp_all
qed

lemma dispatch_submit_go:
  assumes "dispatch_submit ops j rq rest st = (True, l', st')"
  shows "\<exists>r. \<not> queue_busy r \<and> st_ret st' = r
      \<and> st_issued st' = st_issued st @
            [\<lparr> is_rq = rq_id rq, is_sched_tag = internal_tag rq, is_tag = tag rq, is_ret = r \<rparr>]
      \<and> st_ended st' = st_ended st @ (if r = BLK_MQ_RQ_QUEUE_OK then [] else [(rq_id rq, - EIO)])
      \<and> map rq_key l' = map rq_key rest
      \<and> st_queued st' + st_errors st' = st_queued st + st_errors st + 1
      \<and> hctx_frame (st_hctx st) (st_hctx st')"
proof -
  obtain is_last rest1 hctx1 where pk: "peek_next rest (st_hctx st) = (is_last, rest1, hctx1)"
    by (cases "peek_next rest (st_hctx st)") auto
  obtain ret started drv1 where q:
    "queue_rq ops (st_drv st) \<lparr> bd_rq = rq, bd_list = st_dptr st, bd_last = is_last \<rparr> = (ret, started, drv1)"
    by (cases "queue_rq ops (st_drv st) \<lparr> bd_rq = rq, bd_list = st_dptr st, bd_last = is_last \<rparr>") auto
  note p = peek_next_props [OF pk]
  show ?thesis
  proof (cases "ret = BLK_MQ_RQ_QUEUE_OK")
    case True
    with assms p show ?thesis
      by (auto simp: dispatch_submit_def pk q Let_def queue_busy_def)
  next
    case False
    show ?thesis
    proof (cases "queue_busy ret")
      case True
      with False assms show ?thesis
        by (auto simp: dispatch_submit_def pk q Let_def split: prod.splits)
    next
      case nb: False
      with False assms p show ?thesis
        by (auto simp: dispatch_submit_def pk q Let_def)
    qed
  qed
qed

lemma dispatch_submit_stop:
  assumes "dispatch_submit ops j rq rest st = (False, l', st')"
  shows "\<exists>r rq_r rest'. queue_busy r \<and> st_ret st' = r
      \<and> st_issued st' = st_issued st @
            [\<lparr> is_rq = rq_id rq, is_sched_tag = internal_tag rq, is_tag = tag rq, is_ret = r \<rparr>]
      \<and> st_ended st' = st_ended st
      \<and> l' = rq_r # rest' \<and> map rq_key rest' = map rq_key rest
      \<and> rq_id rq_r = rq_id rq \<and> internal_tag rq_r = internal_tag rq
      \<and> \<not> test_bit REQ_ATOM_STARTED (atomic_flags rq_r)
      \<and> (tag rq \<noteq> -1 \<and> internal_tag rq \<noteq> -1 \<longrightarrow>
            tag rq_r = -1
            \<and> (0 \<le> tag rq \<longrightarrow>
                 \<not> sbitmap_test_bit (bitmap_tags (tags (st_hctx st'))) (nat (tag rq))))
      \<and> (internal_tag rq = -1 \<longrightarrow> tag rq_r = tag rq)
      \<and> st_queued st' = st_queued st \<and> st_errors st' = st_errors st
      \<and> hctx_frame (st_hctx st) (st_hctx st')"
proof -
  obtain is_last rest1 hctx1 where pk: "peek_next rest (st_hctx st) = (is_last, rest1, hctx1)"
    by (cases "peek_next rest (st_hctx st)") auto
  obtain ret started drv1 where q:
    "queue_rq ops (st_drv st) \<lparr> bd_rq = rq, bd_list = st_dptr st, bd_last = is_last \<rparr> = (ret, started, drv1)"
    by (cases "queue_rq ops (st_drv st) \<lparr> bd_rq = rq, bd_list = st_dptr st, bd_last = is_last \<rparr>") auto
  define rq_s where "rq_s = (if started then blk_mq_start_request j rq else rq)"
  obtain rest2 hctx2 where up: "unpeek_next rest1 hctx1 = (rest2, hctx2)"
    by (cases "unpeek_next rest1 hctx1") auto
  obtain rq_r hctx3 where rqe: "blk_mq_requeue_request_inner hctx2 rq_s = (rq_r, hctx3)"
    by (cases "blk_mq_requeue_request_inner hctx2 rq_s") auto
  note p = peek_next_props [OF pk]
  note u = unpeek_next_props [OF up]
  note r = blk_mq_requeue_request_inner_props [OF rqe]
  have s: "rq_id rq_s = rq_id rq" "internal_tag rq_s = internal_tag rq" "tag rq_s = tag rq"
    by (simp_all add: rq_s_def blk_mq_start_request_props)
  have fr: "hctx_frame (st_hctx st) hctx3"
    using p(2) u(2) r(3) by (blast intro: hctx_frame_trans)
  have busy: "queue_busy ret" and nok: "ret \<noteq> BLK_MQ_RQ_QUEUE_OK"
    using assms
    by (auto simp: dispatch_submit_def pk q Let_def queue_busy_def split: if_splits)
  have res: "l' = rq_r # rest2"
    "st' = st\<lparr>st_hctx := hctx3, st_drv := drv1, st_ret := ret,
               st_issued := st_issued st @
                 [\<lparr> is_rq = rq_id rq, is_sched_tag = internal_tag rq, is_tag = tag rq,
                    is_ret = ret \<rparr>]\<rparr>"
    using assms busy nok
    by (auto simp: dispatch_submit_def pk q Let_def up rqe [unfolded rq_s_def])
  show ?thesis
    using busy res p(1) u(1) r s fr by auto
qed

text \<open>
  The loop invariant, as a relation between the state before and after the loop on the list
  \<open>l\<close>: the calls of the driver added to the log are \<open>served\<close>, none of them busy,
  followed by at most one busy call \<open>stopped\<close>; the requests of \<open>l\<close> are those served, in
  order, followed by those left on the list; and when the loop stopped on a busy answer the
  request at the head of the list is the one the driver refused, not started, without
  driver tag if it holds a scheduler tag.
\<close>

definition loop_post :: "request list \<Rightarrow> 'd dispatch_state \<Rightarrow> 'd dispatch_state \<Rightarrow> bool" where
  "loop_post l st st' =
     (\<exists>served stopped.
        st_issued st' = st_issued st @ served @ stopped
      \<and> (\<forall>e \<in> set served. \<not> queue_busy (is_ret e))
      \<and> map rq_key l = map is_key served @ map rq_key (st_list st')
      \<and> st_queued st' + st_errors st' = st_queued st + st_errors st + length served
      \<and> st_ended st' = st_ended st
           @ map (\<lambda>e. (is_rq e, - EIO)) (filter (\<lambda>e. is_ret e \<noteq> BLK_MQ_RQ_QUEUE_OK) served)
      \<and> hctx_frame (st_hctx st) (st_hctx st')
      \<and> (if stopped = [] then (served = [] \<longrightarrow> st_ret st' = st_ret st)
                           \<and> (served \<noteq> [] \<longrightarrow> st_ret st' = is_ret (last served))
          else \<exists>e. stopped = [e] \<and> queue_busy (is_ret e) \<and> st_ret st' = is_ret e
                 \<and> is_tag e \<noteq> -1
                 \<and> st_list st' \<noteq> [] \<and> rq_key (hd (st_list st')) = is_key e
                 \<and> \<not> test_bit REQ_ATOM_STARTED (atomic_flags (hd (st_list st')))
                 \<and> (is_sched_tag e \<noteq> -1 \<longrightarrow>
                       tag (hd (st_list st')) = -1
                       \<and> (0 \<le> is_tag e \<longrightarrow>
                            \<not> sbitmap_test_bit (bitmap_tags (tags (st_hctx st')))
                                 (nat (is_tag e))))
                 \<and> (is_sched_tag e = -1 \<longrightarrow> tag (hd (st_list st')) = is_tag e)))"

lemma loop_post_stop_early:
  assumes "rq_key rq' = rq_key rq" "st_issued st1 = st_issued st" "st_ended st1 = st_ended st"
    "st_queued st1 = st_queued st" "st_errors st1 = st_errors st" "st_ret st1 = st_ret st"
    "hctx_frame (st_hctx st) (st_hctx st1)"
  shows "loop_post (rq # rest) st (st1\<lparr>st_list := rq' # rest\<rparr>)"
  unfolding loop_post_def
  by (rule exI [of _ "[]"], rule exI [of _ "[]"]) (use assms in simp)

lemma loop_post_busy:
  assumes pre: "rq_key rq' = rq_key rq" "st_issued st1 = st_issued st" "st_ended st1 = st_ended st"
    "st_queued st1 = st_queued st" "st_errors st1 = st_errors st"
    "hctx_frame (st_hctx st) (st_hctx st1)" "tag rq' \<noteq> -1"
    and sub: "dispatch_submit ops j rq' rest st1 = (False, l', st2)"
  shows "loop_post (rq # rest) st (st2\<lparr>st_list := l'\<rparr>)"
proof -
  from dispatch_submit_stop [OF sub] obtain r rq_r rest' where
    r: "queue_busy r" "st_ret st2 = r"
    and iss: "st_issued st2 = st_issued st1 @
        [\<lparr> is_rq = rq_id rq', is_sched_tag = internal_tag rq', is_tag = tag rq', is_ret = r \<rparr>]"
    and en: "st_ended st2 = st_ended st1"
    and l': "l' = rq_r # rest'" "map rq_key rest' = map rq_key rest"
    and rq_r: "rq_id rq_r = rq_id rq'" "internal_tag rq_r = internal_tag rq'"
      "\<not> test_bit REQ_ATOM_STARTED (atomic_flags rq_r)"
    and rel: "tag rq' \<noteq> -1 \<and> internal_tag rq' \<noteq> -1 \<longrightarrow>
            tag rq_r = -1
            \<and> (0 \<le> tag rq' \<longrightarrow>
                 \<not> sbitmap_test_bit (bitmap_tags (tags (st_hctx st2))) (nat (tag rq')))"
    and keep: "internal_tag rq' = -1 \<longrightarrow> tag rq_r = tag rq'"
    and cnt: "st_queued st2 = st_queued st1" "st_errors st2 = st_errors st1"
    and fr: "hctx_frame (st_hctx st1) (st_hctx st2)"
    by blast
  have fr': "hctx_frame (st_hctx st) (st_hctx st2)"
    using pre(6) fr by (rule hctx_frame_trans)
  show ?thesis
    unfolding loop_post_def
    by (rule exI [of _ "[]"], rule exI [of _ "[\<lparr> is_rq = rq_id rq', is_sched_tag = internal_tag rq', is_tag = tag rq',
           is_ret = r \<rparr>]"])
      (use pre r iss en l' rq_r rel keep cnt fr' in \<open>simp add: rq_key_def is_key_def\<close>)
qed

lemma loop_post_step:
  assumes pre: "rq_key rq' = rq_key rq" "st_issued st1 = st_issued st" "st_ended st1 = st_ended st"
    "st_queued st1 = st_queued st" "st_errors st1 = st_errors st"
    "hctx_frame (st_hctx st) (st_hctx st1)"
    and sub: "dispatch_submit ops j rq' rest st1 = (True, l', st2)"
    and IH: "loop_post l' st2 st'"
  shows "loop_post (rq # rest) st st'"
proof -
  from dispatch_submit_go [OF sub] obtain r where
    r: "\<not> queue_busy r" "st_ret st2 = r"
    and iss: "st_issued st2 = st_issued st1 @
        [\<lparr> is_rq = rq_id rq', is_sched_tag = internal_tag rq', is_tag = tag rq', is_ret = r \<rparr>]"
    and en: "st_ended st2 = st_ended st1 @ (if r = BLK_MQ_RQ_QUEUE_OK then [] else [(rq_id rq', - EIO)])"
    and l': "map rq_key l' = map rq_key rest"
    and cnt: "st_queued st2 + st_errors st2 = st_queued st1 + st_errors st1 + 1"
    and fr: "hctx_frame (st_hctx st1) (st_hctx st2)"
    by blast
  from IH obtain served stopped where
    p1: "st_issued st' = st_issued st2 @ served @ stopped"
    and p2: "\<forall>e \<in> set served. \<not> queue_busy (is_ret e)"
    and p3: "map rq_key l' = map is_key served @ map rq_key (st_list st')"
    and p4: "st_queued st' + st_errors st' = st_queued st2 + st_errors st2 + length served"
    and p5: "st_ended st' = st_ended st2
           @ map (\<lambda>e. (is_rq e, - EIO)) (filter (\<lambda>e. is_ret e \<noteq> BLK_MQ_RQ_QUEUE_OK) served)"
    and p6: "hctx_frame (st_hctx st2) (st_hctx st')"
    and p7: "if stopped = [] then (served = [] \<longrightarrow> st_ret st' = st_ret st2)
                           \<and> (served \<noteq> [] \<longrightarrow> st_ret st' = is_ret (last served))
          else \<exists>e. stopped = [e] \<and> queue_busy (is_ret e) \<and> st_ret st' = is_ret e
                 \<and> is_tag e \<noteq> -1
                 \<and> st_list st' \<noteq> [] \<and> rq_key (hd (st_list st')) = is_key e
                 \<and> \<not> test_bit REQ_ATOM_STARTED (atomic_flags (hd (st_list st')))
                 \<and> (is_sched_tag e \<noteq> -1 \<longrightarrow>
                       tag (hd (st_list st')) = -1
                       \<and> (0 \<le> is_tag e \<longrightarrow>
                            \<not> sbitmap_test_bit (bitmap_tags (tags (st_hctx st')))
                                 (nat (is_tag e))))
                 \<and> (is_sched_tag e = -1 \<longrightarrow> tag (hd (st_list st')) = is_tag e)"
    unfolding loop_post_def by blast
  have fr': "hctx_frame (st_hctx st) (st_hctx st')"
    using pre(6) fr p6 by (blast intro: hctx_frame_trans)
  let ?e = "\<lparr> is_rq = rq_id rq', is_sched_tag = internal_tag rq', is_tag = tag rq', is_ret = r \<rparr>"
  show ?thesis
    unfolding loop_post_def
  proof (rule exI [of _ "?e # served"], rule exI [of _ stopped], intro conjI)
    show "st_issued st' = st_issued st @ (?e # served) @ stopped"
      using p1 iss pre(2) by simp
    show "\<forall>e \<in> set (?e # served). \<not> queue_busy (is_ret e)"
      using p2 r(1) by simp
    show "map rq_key (rq # rest) = map is_key (?e # served) @ map rq_key (st_list st')"
      using p3 l' pre(1) by (simp add: rq_key_def is_key_def)
    show "st_queued st' + st_errors st' = st_queued st + st_errors st + length (?e # served)"
      using p4 cnt pre(4,5) by simp
    show "st_ended st' = st_ended st
           @ map (\<lambda>e. (is_rq e, - EIO)) (filter (\<lambda>e. is_ret e \<noteq> BLK_MQ_RQ_QUEUE_OK) (?e # served))"
      using p5 en pre(3) by simp
    show "hctx_frame (st_hctx st) (st_hctx st')" by (rule fr')
    show "if stopped = [] then (?e # served = [] \<longrightarrow> st_ret st' = st_ret st)
                           \<and> (?e # served \<noteq> [] \<longrightarrow> st_ret st' = is_ret (last (?e # served)))
          else \<exists>e. stopped = [e] \<and> queue_busy (is_ret e) \<and> st_ret st' = is_ret e
                 \<and> is_tag e \<noteq> -1
                 \<and> st_list st' \<noteq> [] \<and> rq_key (hd (st_list st')) = is_key e
                 \<and> \<not> test_bit REQ_ATOM_STARTED (atomic_flags (hd (st_list st')))
                 \<and> (is_sched_tag e \<noteq> -1 \<longrightarrow>
                       tag (hd (st_list st')) = -1
                       \<and> (0 \<le> is_tag e \<longrightarrow>
                            \<not> sbitmap_test_bit (bitmap_tags (tags (st_hctx st')))
                                 (nat (is_tag e))))
                 \<and> (is_sched_tag e = -1 \<longrightarrow> tag (hd (st_list st')) = is_tag e)"
      using p7 r(2) by (cases "stopped = []") auto
  qed
qed

lemma dispatch_loop_post: "loop_post l st (dispatch_loop ops j gb l st)"
proof (induction ops j gb l st rule: dispatch_loop.induct)
  case (1 ops jiffies got_budget st)
  show ?case
    unfolding loop_post_def
    by (rule exI [of _ "[]"], rule exI [of _ "[]"]) simp
next
  case (2 ops jiffies got_budget rq rest st)
  obtain ok rq' st1 where prep: "dispatch_prepare ops got_budget rq st = (ok, rq', st1)"
    by (cases "dispatch_prepare ops got_budget rq st") auto
  note pp = dispatch_prepare_props [OF prep]
  show ?case
  proof (cases ok)
    case False
    have "loop_post (rq # rest) st (st1\<lparr>st_list := rq' # rest\<rparr>)"
      by (rule loop_post_stop_early) (use pp in \<open>simp_all add: rq_key_def\<close>)
    with False prep show ?thesis by simp
  next
    case True
    obtain go l' st2 where sub: "dispatch_submit ops jiffies rq' rest st1 = (go, l', st2)"
      by (cases "dispatch_submit ops jiffies rq' rest st1") auto
    show ?thesis
    proof (cases go)
      case False
      with sub have sub': "dispatch_submit ops jiffies rq' rest st1 = (False, l', st2)" by simp
      have "loop_post (rq # rest) st (st2\<lparr>st_list := l'\<rparr>)"
        by (rule loop_post_busy [OF _ _ _ _ _ _ _ sub']) (use pp True in \<open>simp_all add: rq_key_def\<close>)
      with False True prep sub show ?thesis by simp
    next
      case go: True
      with sub have sub': "dispatch_submit ops jiffies rq' rest st1 = (True, l', st2)" by simp
      from prep True have prep': "dispatch_prepare ops got_budget rq st = (True, rq', st1)" by simp
      have IH: "loop_post l' st2 (dispatch_loop ops jiffies got_budget l' st2)"
        by (rule "2.IH" [OF prep' [symmetric] refl refl sub' [symmetric] refl refl])
      have "loop_post (rq # rest) st (dispatch_loop ops jiffies got_budget l' st2)"
        by (rule loop_post_step [OF _ _ _ _ _ _ sub' IH]) (use pp in \<open>simp_all add: rq_key_def\<close>)
      with go True prep sub show ?thesis by simp
    qed
  qed
qed

text \<open>The same for the whole function, on a non-empty list.\<close>

lemma blk_mq_update_dispatch_busy_fields [simp]:
  "dispatch (blk_mq_update_dispatch_busy el h b) = dispatch h"
  "tags (blk_mq_update_dispatch_busy el h b) = tags h"
  "dispatched (blk_mq_update_dispatch_busy el h b) = dispatched h"
  by (simp_all add: blk_mq_update_dispatch_busy_def)

lemma dispatch_busy_update:
  "dispatch_busy (blk_mq_update_dispatch_busy el h b)
     = (if el \<or> (dispatch_busy h = 0 \<and> \<not> b) then dispatch_busy h
        else (dispatch_busy h * 7 + (if b then 16 else 0)) div 8)"
  by (simp add: blk_mq_update_dispatch_busy_def)

definition dispatch_post ::
    "request list \<Rightarrow> bool \<Rightarrow> blk_mq_hw_ctx \<Rightarrow> 'd dispatch_result \<Rightarrow> issue list \<Rightarrow> issue list \<Rightarrow> bool" where
  "dispatch_post l elevator hctx res served stopped =
     (res_issued res = served @ stopped
      \<and> (\<forall>e \<in> set served. \<not> queue_busy (is_ret e))
      \<and> map rq_key l = map is_key served @ map rq_key (res_requeued res)
      \<and> res_ended res
          = map (\<lambda>e. (is_rq e, - EIO)) (filter (\<lambda>e. is_ret e \<noteq> BLK_MQ_RQ_QUEUE_OK) served)
      \<and> dispatch (res_hctx res) = res_requeued res @ dispatch hctx
      \<and> dispatch_busy (res_hctx res)
          = dispatch_busy (blk_mq_update_dispatch_busy elevator hctx (res_requeued res \<noteq> []))
      \<and> progress res = (res_requeued res = [])
      \<and> (stopped \<noteq> [] \<longrightarrow>
           (\<exists>e. stopped = [e] \<and> queue_busy (is_ret e) \<and> is_tag e \<noteq> -1
              \<and> res_requeued res \<noteq> [] \<and> rq_key (hd (res_requeued res)) = is_key e
              \<and> \<not> test_bit REQ_ATOM_STARTED (atomic_flags (hd (res_requeued res)))
              \<and> (is_sched_tag e \<noteq> -1 \<longrightarrow>
                    tag (hd (res_requeued res)) = -1
                    \<and> (0 \<le> is_tag e \<longrightarrow>
                         \<not> sbitmap_test_bit (bitmap_tags (tags (res_hctx res)))
                              (nat (is_tag e))))
              \<and> (is_sched_tag e = -1 \<longrightarrow> tag (hd (res_requeued res)) = is_tag e))))"

lemma blk_mq_dispatch_rq_list_post:
  assumes ne: "l \<noteq> []"
  shows "\<exists>served stopped.
      dispatch_post l elevator hctx
        (blk_mq_dispatch_rq_list ops elevator jiffies l got_budget hctx drv) served stopped"
proof -
  define st0 :: "'a dispatch_state" where
    "st0 = \<lparr> st_hctx = hctx, st_drv = drv, st_queued = 0, st_errors = 0,
             st_ret = BLK_MQ_RQ_QUEUE_OK, st_no_tag = False, st_dptr = False,
             st_issued = [], st_ended = [], st_list = l \<rparr>"
  define st where "st = dispatch_loop ops jiffies got_budget l st0"
  define res where "res = blk_mq_dispatch_rq_list ops elevator jiffies l got_budget hctx drv"
  have init: "st_issued st0 = []" "st_queued st0 = 0" "st_errors st0 = 0" "st_ended st0 = []"
    "st_hctx st0 = hctx" "st_ret st0 = BLK_MQ_RQ_QUEUE_OK"
    by (simp_all add: st0_def)
  have "loop_post l st0 st" unfolding st_def by (rule dispatch_loop_post)
  then obtain served stopped where
    p1: "st_issued st = st_issued st0 @ served @ stopped"
    and p2: "\<forall>e \<in> set served. \<not> queue_busy (is_ret e)"
    and p3: "map rq_key l = map is_key served @ map rq_key (st_list st)"
    and p4: "st_queued st + st_errors st = st_queued st0 + st_errors st0 + length served"
    and p5: "st_ended st = st_ended st0
           @ map (\<lambda>e. (is_rq e, - EIO)) (filter (\<lambda>e. is_ret e \<noteq> BLK_MQ_RQ_QUEUE_OK) served)"
    and p6: "hctx_frame (st_hctx st0) (st_hctx st)"
    and p7: "if stopped = [] then (served = [] \<longrightarrow> st_ret st = st_ret st0)
                           \<and> (served \<noteq> [] \<longrightarrow> st_ret st = is_ret (last served))
          else \<exists>e. stopped = [e] \<and> queue_busy (is_ret e) \<and> st_ret st = is_ret e
                 \<and> is_tag e \<noteq> -1
                 \<and> st_list st \<noteq> [] \<and> rq_key (hd (st_list st)) = is_key e
                 \<and> \<not> test_bit REQ_ATOM_STARTED (atomic_flags (hd (st_list st)))
                 \<and> (is_sched_tag e \<noteq> -1 \<longrightarrow>
                       tag (hd (st_list st)) = -1
                       \<and> (0 \<le> is_tag e \<longrightarrow>
                            \<not> sbitmap_test_bit (bitmap_tags (tags (st_hctx st)))
                                 (nat (is_tag e))))
                 \<and> (is_sched_tag e = -1 \<longrightarrow> tag (hd (st_list st)) = is_tag e)"
    unfolding loop_post_def by blast
  note p1 = p1 [unfolded init, simplified] and p4 = p4 [unfolded init, simplified]
    and p5 = p5 [unfolded init, simplified] and p6 = p6 [unfolded init]
    and p7 = p7 [unfolded init]
  have db: "dispatch_busy (st_hctx st) = dispatch_busy hctx"
    and dl: "dispatch (st_hctx st) = dispatch hctx"
    using p6 by (simp_all add: hctx_frame_def)
  have res: "res = dispatch_finish elevator st"
    using ne by (simp add: res_def blk_mq_dispatch_rq_list_def st_def st0_def)
  have "dispatch_post l elevator hctx res served stopped"
  proof (cases "st_list st = []")
    case True
    have stopped: "stopped = []" using p7 True by (cases "stopped = []") auto
    have served: "served \<noteq> []" using p3 True ne by auto
    have ret: "\<not> queue_busy (st_ret st)" using p7 stopped served p2 by simp
    have cnt: "st_queued st + st_errors st \<noteq> 0" using p4 served by simp
    have f: "progress res" "res_issued res = st_issued st" "res_ended res = st_ended st"
      "res_requeued res = []" "dispatch (res_hctx res) = dispatch (st_hctx st)"
      "dispatch_busy (res_hctx res)
         = dispatch_busy (blk_mq_update_dispatch_busy elevator hctx False)"
      using True ret cnt db
      by (simp_all add: res dispatch_finish_def Let_def dispatch_busy_update)
    show ?thesis
      unfolding dispatch_post_def
      using p1 p2 p3 p5 True stopped dl f by simp
  next
    case False
    have f: "\<not> progress res" "res_issued res = st_issued st" "res_ended res = st_ended st"
      "res_requeued res = st_list st"
      "dispatch (res_hctx res) = st_list st @ dispatch (st_hctx st)"
      "tags (res_hctx res) = tags (st_hctx st)"
      "dispatch_busy (res_hctx res)
         = dispatch_busy (blk_mq_update_dispatch_busy elevator hctx True)"
      using False db
      by (simp_all add: res dispatch_finish_def Let_def dispatch_busy_update)
    show ?thesis
      unfolding dispatch_post_def
      using p1 p2 p3 p5 False dl f p7
      by (cases "stopped = []") auto
  qed
  then show ?thesis unfolding res_def by blast
qed

text \<open>
  Drivers and requests for the examples: \<open>busy_at i\<close> accepts and starts every request
  but request \<open>i\<close>, for which it answers \<open>BLK_MQ_RQ_QUEUE_BUSY\<close>, and has no budget
  callbacks; \<open>sched_rq i\<close> is a request that holds scheduler tag \<open>i\<close> and no driver tag,
  as \<open>blk_mq_rq_ctx_init\<close> leaves it when an I/O scheduler is attached
  (\<open>example_rq i c\<close> holds driver tag \<open>i\<close> and no scheduler tag, the case without
  scheduler).
\<close>

definition busy_at :: "nat \<Rightarrow> unit blk_mq_ops" where
  "busy_at i =
     \<lparr> queue_rq = (\<lambda>drv bd. if rq_id (bd_rq bd) = i then (BLK_MQ_RQ_QUEUE_BUSY, False, drv)
                               else (BLK_MQ_RQ_QUEUE_OK, True, drv)),
       get_budget = None, put_budget = None \<rparr>"

definition sched_rq :: "nat \<Rightarrow> request" where
  "sched_rq i = (example_rq i 0)\<lparr>tag := -1, internal_tag := int i\<rparr>"

lemma ewma_unat:
  fixes w :: "32 word"
  assumes "unat w * 7 + 16 < 2 ^ 32"
  shows "unat ((w * 7 + (if b then 16 else 0)) div 8) = (unat w * 7 + (if b then 16 else 0)) div 8"
proof -
  have m: "unat (w * 7) = unat w * 7"
    using assms by (simp add: unat_word_ariths)
  have "unat (w * 7 + (if b then 16 else 0)) = unat w * 7 + (if b then 16 else 0)"
    using assms m by (simp add: unat_word_ariths)
  then show ?thesis by (simp add: unat_div)
qed

lemma dispatch_busy_update_unat:
  assumes "unat (dispatch_busy h) * 7 + 16 < 2 ^ 32"
  shows "unat (dispatch_busy (blk_mq_update_dispatch_busy False h b))
     = (unat (dispatch_busy h) * 7 + (if b then 16 else 0)) div 8"
proof (cases "dispatch_busy h = 0 \<and> \<not> b")
  case True
  then show ?thesis by (simp add: dispatch_busy_update)
next
  case False
  then have "dispatch_busy (blk_mq_update_dispatch_busy False h b)
      = (dispatch_busy h * 7 + (if b then 16 else 0)) div 8"
    by (simp add: dispatch_busy_update)
  then show ?thesis using ewma_unat [OF assms, of b] by simp
qed


text \<open>
  C1 (as amended). \<open>blk_mq_dispatch_rq_list\<close> returns true if and only if the batch was
  not empty and no request of it was left undispatched; equivalently, if and only if the
  batch was not empty, every request of it was submitted to the driver, in order, and the
  driver answered none of them with busy (each was accepted or finalized with an error).
  As the comment above the function says: true if we did some work and can potentially do
  more.
\<close>

theorem blk_mq_dispatch_rq_list_progress:
  assumes res: "res = blk_mq_dispatch_rq_list ops elevator jiffies l got_budget hctx drv"
  shows "progress res = (l \<noteq> [] \<and> res_requeued res = [])
     \<and> progress res = (l \<noteq> [] \<and> map is_key (res_issued res) = map rq_key l
                          \<and> (\<forall>e \<in> set (res_issued res). \<not> queue_busy (is_ret e)))"
proof (cases "l = []")
  case True
  then show ?thesis by (simp add: res blk_mq_dispatch_rq_list_def)
next
  case False
  from blk_mq_dispatch_rq_list_post [OF False, of elevator hctx ops jiffies got_budget drv]
  obtain served stopped where "dispatch_post l elevator hctx res served stopped"
    unfolding res by blast
  then have p1: "res_issued res = served @ stopped"
    and p2: "\<forall>e \<in> set served. \<not> queue_busy (is_ret e)"
    and p3: "map rq_key l = map is_key served @ map rq_key (res_requeued res)"
    and p4: "progress res = (res_requeued res = [])"
    and p5: "stopped \<noteq> [] \<longrightarrow>
           (\<exists>e. stopped = [e] \<and> queue_busy (is_ret e) \<and> res_requeued res \<noteq> [])"
    unfolding dispatch_post_def by blast+
  have "(res_requeued res = [])
      = (map is_key (res_issued res) = map rq_key l
          \<and> (\<forall>e \<in> set (res_issued res). \<not> queue_busy (is_ret e)))"
  proof
    assume a: "res_requeued res = []"
    with p5 have "stopped = []" by blast
    with a p1 p2 p3 show "map is_key (res_issued res) = map rq_key l
          \<and> (\<forall>e \<in> set (res_issued res). \<not> queue_busy (is_ret e))" by simp
  next
    assume a: "map is_key (res_issued res) = map rq_key l
          \<and> (\<forall>e \<in> set (res_issued res). \<not> queue_busy (is_ret e))"
    have s: "stopped = []"
    proof (rule ccontr)
      assume "stopped \<noteq> []"
      with p5 obtain e where "stopped = [e]" "queue_busy (is_ret e)" by blast
      with a p1 show False by simp
    qed
    from a p1 p3 s have "map rq_key (res_requeued res) = []" by simp
    then show "res_requeued res = []" by simp
  qed
  with p4 False show ?thesis by simp
qed


text \<open>Three requests, all accepted: the dispatcher reports progress.\<close>

theorem blk_mq_dispatch_rq_list_progress_witness:
  "progress (blk_mq_dispatch_rq_list (busy_at 3) False 0
       [example_rq 0 0, example_rq 1 0, example_rq 2 0] False (example_hctx [False] [0]) ())
   \<and> map is_rq (res_issued (blk_mq_dispatch_rq_list (busy_at 3) False 0
       [example_rq 0 0, example_rq 1 0, example_rq 2 0] False (example_hctx [False] [0]) ()))
       = [0, 1, 2]"
proof -
  have r: "res_requeued (blk_mq_dispatch_rq_list (busy_at 3) False 0
       [example_rq 0 0, example_rq 1 0, example_rq 2 0] False (example_hctx [False] [0]) ()) = []"
    by code_simp
  have i: "map is_rq (res_issued (blk_mq_dispatch_rq_list (busy_at 3) False 0
       [example_rq 0 0, example_rq 1 0, example_rq 2 0] False (example_hctx [False] [0]) ()))
       = [0, 1, 2]"
    by code_simp
  from blk_mq_dispatch_rq_list_progress [OF refl, of "busy_at 3" False 0
       "[example_rq 0 0, example_rq 1 0, example_rq 2 0]" False "example_hctx [False] [0]" "()"]
  have "progress (blk_mq_dispatch_rq_list (busy_at 3) False 0
       [example_rq 0 0, example_rq 1 0, example_rq 2 0] False (example_hctx [False] [0]) ())
     = ([example_rq 0 0, example_rq 1 0, example_rq 2 0] \<noteq> []
        \<and> res_requeued (blk_mq_dispatch_rq_list (busy_at 3) False 0
       [example_rq 0 0, example_rq 1 0, example_rq 2 0] False (example_hctx [False] [0]) ()) = [])"
    by blast
  with r i show ?thesis by simp
qed


text \<open>
  The claim as written fails on its own scenario: the driver accepts request 0 and answers
  busy for request 1 of three. One request was accepted, requests 1 and 2 are back on the
  dispatch list with request 1 first, and the dispatcher returns false.
\<close>

theorem blk_mq_dispatch_rq_list_busy_second:
  "progress (blk_mq_dispatch_rq_list (busy_at 1) False 0
       [example_rq 0 0, example_rq 1 0, example_rq 2 0] False (example_hctx [False] [0]) ())
     = False
   \<and> map is_rq (res_issued (blk_mq_dispatch_rq_list (busy_at 1) False 0
       [example_rq 0 0, example_rq 1 0, example_rq 2 0] False (example_hctx [False] [0]) ()))
       = [0, 1]
   \<and> map is_ret (res_issued (blk_mq_dispatch_rq_list (busy_at 1) False 0
       [example_rq 0 0, example_rq 1 0, example_rq 2 0] False (example_hctx [False] [0]) ()))
       = [BLK_MQ_RQ_QUEUE_OK, BLK_MQ_RQ_QUEUE_BUSY]
   \<and> map rq_id (dispatch (res_hctx (blk_mq_dispatch_rq_list (busy_at 1) False 0
       [example_rq 0 0, example_rq 1 0, example_rq 2 0] False (example_hctx [False] [0]) ())))
       = [1, 2]"
  by code_simp


text \<open>
  C3. When the driver answers busy (\<open>BLK_MQ_RQ_QUEUE_BUSY\<close> or
  \<open>BLK_MQ_RQ_QUEUE_DEV_BUSY\<close>) for a request of the batch, that call is the last one of
  the dispatch and no earlier call was answered busy (the loop stopped); the refused
  request is at the head of the requests left over, with \<open>REQ_ATOM_STARTED\<close> clear; the
  requests of the batch are the ones served before, in order, followed by the ones left
  over, so none is dropped; the ones left over are spliced onto the front of
  \<open>hctx->dispatch\<close>; if the request holds a scheduler tag, its driver tag (the one the
  dispatcher acquired for it) is released: the request's \<open>tag\<close> is \<open>-1\<close> and the bit is
  clear in the tag bitmap; a request without scheduler tag keeps the driver tag it was
  allocated with; and the dispatcher returns false.
\<close>

theorem blk_mq_dispatch_rq_list_busy:
  assumes res: "res = blk_mq_dispatch_rq_list ops elevator jiffies l got_budget hctx drv"
    and e: "e \<in> set (res_issued res)" and busy: "queue_busy (is_ret e)"
  shows "\<exists>served rq_b rest.
        res_issued res = served @ [e]
      \<and> (\<forall>x \<in> set served. \<not> queue_busy (is_ret x))
      \<and> res_requeued res = rq_b # rest
      \<and> rq_key rq_b = is_key e
      \<and> map rq_key l = map is_key served @ map rq_key (rq_b # rest)
      \<and> dispatch (res_hctx res) = rq_b # rest @ dispatch hctx
      \<and> \<not> test_bit REQ_ATOM_STARTED (atomic_flags rq_b)
      \<and> (is_sched_tag e \<noteq> -1 \<longrightarrow>
            tag rq_b = -1
            \<and> (0 \<le> is_tag e \<longrightarrow>
                 \<not> sbitmap_test_bit (bitmap_tags (tags (res_hctx res))) (nat (is_tag e))))
      \<and> (is_sched_tag e = -1 \<longrightarrow> tag rq_b = is_tag e)
      \<and> \<not> progress res"
proof -
  have ne: "l \<noteq> []"
    using e by (auto simp: res blk_mq_dispatch_rq_list_def)
  from blk_mq_dispatch_rq_list_post [OF ne, of elevator hctx ops jiffies got_budget drv]
  obtain served stopped where post: "dispatch_post l elevator hctx res served stopped"
    unfolding res by blast
  then have p1: "res_issued res = served @ stopped"
    and p2: "\<forall>x \<in> set served. \<not> queue_busy (is_ret x)"
    and p3: "map rq_key l = map is_key served @ map rq_key (res_requeued res)"
    and p4: "dispatch (res_hctx res) = res_requeued res @ dispatch hctx"
    and p5: "progress res = (res_requeued res = [])"
    unfolding dispatch_post_def by blast+
  from e busy p1 p2 have "e \<in> set stopped" by auto
  then have "stopped \<noteq> []" by auto
  with post obtain e' where s: "stopped = [e']"
    and q: "res_requeued res \<noteq> []" "rq_key (hd (res_requeued res)) = is_key e'"
      "\<not> test_bit REQ_ATOM_STARTED (atomic_flags (hd (res_requeued res)))"
      "is_sched_tag e' \<noteq> -1 \<longrightarrow>
          tag (hd (res_requeued res)) = -1
          \<and> (0 \<le> is_tag e' \<longrightarrow>
               \<not> sbitmap_test_bit (bitmap_tags (tags (res_hctx res))) (nat (is_tag e')))"
      "is_sched_tag e' = -1 \<longrightarrow> tag (hd (res_requeued res)) = is_tag e'"
    unfolding dispatch_post_def by blast
  from s \<open>e \<in> set stopped\<close> have e': "e' = e" by simp
  from q(1) obtain rq_b rest where l': "res_requeued res = rq_b # rest"
    by (cases "res_requeued res") auto
  show ?thesis
    by (rule exI [of _ served], rule exI [of _ rq_b], rule exI [of _ rest])
      (use p1 p2 p3 p4 p5 s q l' e' in simp)
qed


text \<open>
  Three requests with scheduler tags, the driver busy for request 1: driver tag 1 was
  acquired for it, and is free again after the dispatch.
\<close>

theorem blk_mq_dispatch_rq_list_busy_witness:
  "\<lparr> is_rq = 1, is_sched_tag = 1, is_tag = 1, is_ret = BLK_MQ_RQ_QUEUE_BUSY \<rparr>
      \<in> set (res_issued (blk_mq_dispatch_rq_list (busy_at 1) False 0
            [sched_rq 0, sched_rq 1, sched_rq 2] False (example_hctx [False] [0]) ()))
   \<and> queue_busy BLK_MQ_RQ_QUEUE_BUSY
   \<and> map rq_id (dispatch (res_hctx (blk_mq_dispatch_rq_list (busy_at 1) False 0
            [sched_rq 0, sched_rq 1, sched_rq 2] False (example_hctx [False] [0]) ())))
        = [1, 2]
   \<and> tag (hd (res_requeued (blk_mq_dispatch_rq_list (busy_at 1) False 0
            [sched_rq 0, sched_rq 1, sched_rq 2] False (example_hctx [False] [0]) ()))) = -1
   \<and> \<not> sbitmap_test_bit (bitmap_tags (tags (res_hctx (blk_mq_dispatch_rq_list (busy_at 1)
            False 0 [sched_rq 0, sched_rq 1, sched_rq 2] False (example_hctx [False] [0]) ()))))
          1
   \<and> progress (blk_mq_dispatch_rq_list (busy_at 1) False 0
            [sched_rq 0, sched_rq 1, sched_rq 2] False (example_hctx [False] [0]) ()) = False"
proof -
  define res where "res = blk_mq_dispatch_rq_list (busy_at 1) False 0
            [sched_rq 0, sched_rq 1, sched_rq 2] False (example_hctx [False] [0]) ()"
  define e where "e = \<lparr> is_rq = 1, is_sched_tag = 1, is_tag = 1, is_ret = BLK_MQ_RQ_QUEUE_BUSY \<rparr>"
  have iss: "res_issued res
      = [\<lparr> is_rq = 0, is_sched_tag = 0, is_tag = 0, is_ret = BLK_MQ_RQ_QUEUE_OK \<rparr>, e]"
    unfolding res_def e_def by code_simp
  have ids: "map rq_id (dispatch (res_hctx res)) = [1, 2]"
    unfolding res_def by code_simp
  have mem: "e \<in> set (res_issued res)" by (simp add: iss)
  have busy: "queue_busy (is_ret e)" by (simp add: e_def queue_busy_def)
  from blk_mq_dispatch_rq_list_busy [OF res_def mem busy]
  obtain served rq_b rest where
    l: "res_requeued res = rq_b # rest"
    and rel: "is_sched_tag e \<noteq> -1 \<longrightarrow>
            tag rq_b = -1
            \<and> (0 \<le> is_tag e \<longrightarrow>
                 \<not> sbitmap_test_bit (bitmap_tags (tags (res_hctx res))) (nat (is_tag e)))"
    and np: "\<not> progress res"
    by blast
  from rel have "tag rq_b = -1
      \<and> \<not> sbitmap_test_bit (bitmap_tags (tags (res_hctx res))) 1"
    by (simp add: e_def)
  with l np mem busy ids show ?thesis
    unfolding res_def [symmetric] e_def [symmetric] by (simp add: e_def queue_busy_def)
qed


text \<open>
  C8. \<open>blk_mq_update_dispatch_busy\<close> without I/O scheduler stores
  \<open>(old * (8 - 1) + (busy ? 16 : 0)) / 8\<close>, as long as the product does not leave
  \<open>unsigned int\<close>; with a scheduler attached it stores nothing. After a dispatch of a
  non-empty batch the estimate of the hardware queue is the one this update gives, with
  \<open>busy\<close> true exactly when requests were left undispatched. The estimate starts at 0
  (the hardware queue is allocated zeroed) and an estimate of at most 9 stays at most 9, so
  the product never leaves \<open>unsigned int\<close>.
\<close>

theorem blk_mq_update_dispatch_busy_ewma:
  assumes res: "res = blk_mq_dispatch_rq_list ops elevator jiffies l got_budget hctx drv"
    and ne: "l \<noteq> []"
    and range: "unat (dispatch_busy hctx) * (8 - 1) + 16 < 2 ^ 32"
  shows "unat (dispatch_busy (blk_mq_update_dispatch_busy False hctx busy))
           = (unat (dispatch_busy hctx) * (8 - 1) + (if busy then 16 else 0)) div 8
     \<and> blk_mq_update_dispatch_busy True hctx busy = hctx
     \<and> dispatch_busy (res_hctx res)
           = dispatch_busy (blk_mq_update_dispatch_busy elevator hctx (res_requeued res \<noteq> []))
     \<and> unat (dispatch_busy (res_hctx res))
           = (if elevator then unat (dispatch_busy hctx)
              else (unat (dispatch_busy hctx) * (8 - 1)
                      + (if res_requeued res \<noteq> [] then 16 else 0)) div 8)
     \<and> (unat (dispatch_busy hctx) \<le> 9 \<longrightarrow> unat (dispatch_busy (res_hctx res)) \<le> 9)"
proof -
  from range have range': "unat (dispatch_busy hctx) * 7 + 16 < 2 ^ 32" by simp
  note u = dispatch_busy_update_unat [OF range']
  have c1: "unat (dispatch_busy (blk_mq_update_dispatch_busy False hctx busy))
           = (unat (dispatch_busy hctx) * (8 - 1) + (if busy then 16 else 0)) div 8"
    using u [of busy] by simp
  have c2: "blk_mq_update_dispatch_busy True hctx busy = hctx"
    by (simp add: blk_mq_update_dispatch_busy_def)
  from blk_mq_dispatch_rq_list_post [OF ne, of elevator hctx ops jiffies got_budget drv]
  obtain served stopped where "dispatch_post l elevator hctx res served stopped"
    unfolding res by blast
  then have c3: "dispatch_busy (res_hctx res)
           = dispatch_busy (blk_mq_update_dispatch_busy elevator hctx (res_requeued res \<noteq> []))"
    unfolding dispatch_post_def by blast
  have c4: "unat (dispatch_busy (res_hctx res))
           = (if elevator then unat (dispatch_busy hctx)
              else (unat (dispatch_busy hctx) * (8 - 1)
                      + (if res_requeued res \<noteq> [] then 16 else 0)) div 8)"
  proof (cases elevator)
    case True
    then show ?thesis by (simp add: c3 blk_mq_update_dispatch_busy_def)
  next
    case False
    then show ?thesis using u [of "res_requeued res \<noteq> []"] by (simp add: c3)
  qed
  have c5: "unat (dispatch_busy hctx) \<le> 9 \<longrightarrow> unat (dispatch_busy (res_hctx res)) \<le> 9"
    unfolding c4 by auto
  from c1 c2 c3 c4 c5 show ?thesis by blast
qed


text \<open>
  From an estimate of 9: a dispatch that leaves requests behind gives \<open>(63 + 16) / 8 = 9\<close>,
  one that leaves none gives \<open>63 / 8 = 7\<close>.
\<close>

theorem blk_mq_update_dispatch_busy_ewma_witness:
  "[example_rq 0 0, example_rq 1 0, example_rq 2 0] \<noteq> []
   \<and> unat (dispatch_busy ((example_hctx [False] [0])\<lparr>dispatch_busy := 9\<rparr>)) * (8 - 1) + 16
       < 2 ^ 32
   \<and> unat (dispatch_busy (res_hctx (blk_mq_dispatch_rq_list (busy_at 1) False 0
            [example_rq 0 0, example_rq 1 0, example_rq 2 0] False
            ((example_hctx [False] [0])\<lparr>dispatch_busy := 9\<rparr>) ()))) = 9
   \<and> unat (dispatch_busy (res_hctx (blk_mq_dispatch_rq_list (busy_at 3) False 0
            [example_rq 0 0, example_rq 1 0, example_rq 2 0] False
            ((example_hctx [False] [0])\<lparr>dispatch_busy := 9\<rparr>) ()))) = 7"
proof -
  define h where "h = (example_hctx [False] [0])\<lparr>dispatch_busy := 9\<rparr>"
  define l where "l = [example_rq 0 0, example_rq 1 0, example_rq 2 0]"
  define res1 where "res1 = blk_mq_dispatch_rq_list (busy_at 1) False 0 l False h ()"
  define res3 where "res3 = blk_mq_dispatch_rq_list (busy_at 3) False 0 l False h ()"
  have d: "unat (dispatch_busy h) = 9"
    by (simp add: h_def example_hctx_def)
  have r: "unat (dispatch_busy h) * (8 - 1) + 16 < 2 ^ 32"
    by (simp add: d)
  have ne: "l \<noteq> []" by (simp add: l_def)
  have q1: "res_requeued res1 \<noteq> []"
    unfolding res1_def l_def h_def by code_simp
  have q3: "res_requeued res3 = []"
    unfolding res3_def l_def h_def by code_simp
  from blk_mq_update_dispatch_busy_ewma [OF res1_def ne r]
  have "unat (dispatch_busy (res_hctx res1))
           = (if False then unat (dispatch_busy h)
              else (unat (dispatch_busy h) * (8 - 1)
                      + (if res_requeued res1 \<noteq> [] then 16 else 0)) div 8)"
    by blast
  then have w1: "unat (dispatch_busy (res_hctx res1)) = 9"
    by (simp add: d q1)
  from blk_mq_update_dispatch_busy_ewma [OF res3_def ne r]
  have "unat (dispatch_busy (res_hctx res3))
           = (if False then unat (dispatch_busy h)
              else (unat (dispatch_busy h) * (8 - 1)
                      + (if res_requeued res3 \<noteq> [] then 16 else 0)) div 8)"
    by blast
  then have w3: "unat (dispatch_busy (res_hctx res3)) = 7"
    by (simp add: d q3)
  from r ne w1 w3 show ?thesis
    unfolding res1_def res3_def l_def h_def by blast
qed


subsection \<open>Freezing the queue\<close>

text \<open>
  The fields of \<open>struct request_queue\<close> that freezing uses: the counter
  \<open>mq_freeze_depth\<close> (an \<open>atomic_t\<close>, 32 bits), the reference counter \<open>q_usage_counter\<close>
  and the wait queue \<open>mq_freeze_wq\<close>.

  Modelled from the spec: \<open>struct percpu_ref\<close> with \<open>percpu_ref_kill\<close>,
  \<open>percpu_ref_reinit\<close>, \<open>percpu_ref_is_zero\<close>, \<open>percpu_ref_tryget_live\<close>,
  \<open>percpu_ref_tryget\<close> and \<open>percpu_ref_put\<close> (lib/percpu-refcount.c), \<open>wake_up_all\<close>,
  and \<open>blk_queue_enter\<close> and \<open>blk_queue_exit\<close> (block/blk-core.c) are not part of the
  two source files. The spec calls \<open>q_usage_counter\<close> the usage/freeze reference counter:
  it counts the requests currently in flight; freezing stops admission, so that
  \<open>allocate()\<close> blocks or fails, and waits until the count has reached zero; unfreezing
  resets admission to normal and wakes anyone blocked. So the reference is a count and a
  flag \<open>usage_dead\<close> (admission stopped); a live get fails on a stopped reference, a plain
  get (the one \<open>blk_mq_timeout_work\<close> uses) fails only once the stopped reference has
  reached zero; \<open>blk_queue_enter\<close> takes a live reference, and on failure returns
  \<open>-EBUSY\<close> to a caller that passed \<open>BLK_MQ_REQ_NOWAIT\<close> and puts any other caller to
  sleep on \<open>mq_freeze_wq\<close>; \<open>wake_up_all\<close> empties the wait queue (the woken callers
  try again).
\<close>

record freeze_queue =
  mq_freeze_depth :: "32 word"
  usage_dead :: bool
  usage_count :: nat
  mq_freeze_wq :: "nat list"

definition percpu_ref_kill :: "freeze_queue \<Rightarrow> freeze_queue" where
  "percpu_ref_kill q = q\<lparr>usage_dead := True\<rparr>"

definition percpu_ref_reinit :: "freeze_queue \<Rightarrow> freeze_queue" where
  "percpu_ref_reinit q = q\<lparr>usage_dead := False\<rparr>"

definition percpu_ref_is_zero :: "freeze_queue \<Rightarrow> bool" where
  "percpu_ref_is_zero q = (usage_dead q \<and> usage_count q = 0)"

definition percpu_ref_tryget_live :: "freeze_queue \<Rightarrow> freeze_queue option" where
  "percpu_ref_tryget_live q =
     (if usage_dead q then None else Some (q\<lparr>usage_count := usage_count q + 1\<rparr>))"

definition percpu_ref_tryget :: "freeze_queue \<Rightarrow> freeze_queue option" where
  "percpu_ref_tryget q =
     (if percpu_ref_is_zero q then None else Some (q\<lparr>usage_count := usage_count q + 1\<rparr>))"

definition percpu_ref_put :: "freeze_queue \<Rightarrow> freeze_queue" where
  "percpu_ref_put q = q\<lparr>usage_count := usage_count q - 1\<rparr>"

definition wake_up_all :: "freeze_queue \<Rightarrow> freeze_queue" where
  "wake_up_all q = q\<lparr>mq_freeze_wq := []\<rparr>"

datatype enter_result = Entered | Enter_busy | Enter_sleeps

definition blk_queue_enter :: "freeze_queue \<Rightarrow> bool \<Rightarrow> nat \<Rightarrow> enter_result \<times> freeze_queue" where
  "blk_queue_enter q nowait t =
     (case percpu_ref_tryget_live q of
        Some q' \<Rightarrow> (Entered, q')
      | None \<Rightarrow> if nowait then (Enter_busy, q)
                else (Enter_sleeps, q\<lparr>mq_freeze_wq := t # mq_freeze_wq q\<rparr>))"

definition blk_queue_exit :: "freeze_queue \<Rightarrow> freeze_queue" where
  "blk_queue_exit q = percpu_ref_put q"

text \<open>
  \<open>atomic_inc_return\<close> and \<open>atomic_dec_return\<close> on \<open>mq_freeze_depth\<close>: the counter is
  changed and its new value returned in one indivisible step; the 32-bit value wraps.
\<close>

definition atomic_inc_return :: "freeze_queue \<Rightarrow> 32 word \<times> freeze_queue" where
  "atomic_inc_return q = (mq_freeze_depth q + 1, q\<lparr>mq_freeze_depth := mq_freeze_depth q + 1\<rparr>)"

definition atomic_dec_return :: "freeze_queue \<Rightarrow> 32 word \<times> freeze_queue" where
  "atomic_dec_return q = (mq_freeze_depth q - 1, q\<lparr>mq_freeze_depth := mq_freeze_depth q - 1\<rparr>)"

text \<open>
  \<open>blk_freeze_queue_start\<close> is two steps, with no lock around them: the counter, and then
  the reference, depending on the value the counter returned to this caller
  (\<open>blk_mq_run_hw_queues\<close> changes none of the fields here).
  \<^verbatim>\<open>
    freeze_depth = atomic_inc_return(&q->mq_freeze_depth);
    if (freeze_depth == 1) {
        percpu_ref_kill(&q->q_usage_counter);
        if (q->mq_ops)
            blk_mq_run_hw_queues(q, false);
    }
  \<close>
  \<open>blk_freeze_queue_start_kill\<close> is the second step, and \<open>blk_freeze_queue_start\<close>
  the whole function when no other thread takes a step in between.
\<close>

definition blk_freeze_queue_start_kill :: "32 word \<Rightarrow> freeze_queue \<Rightarrow> freeze_queue" where
  "blk_freeze_queue_start_kill freeze_depth q =
     (if freeze_depth = 1 then percpu_ref_kill q else q)"

definition blk_freeze_queue_start :: "freeze_queue \<Rightarrow> freeze_queue" where
  "blk_freeze_queue_start q =
     (case atomic_inc_return q of
        (freeze_depth, q1) \<Rightarrow> blk_freeze_queue_start_kill freeze_depth q1)"

text \<open>
  \<open>blk_mq_freeze_queue_wait\<close> sleeps until the reference is zero. The result \<open>None\<close>
  says that the condition does not hold and the caller stays asleep.
  \<^verbatim>\<open>
    wait_event(q->mq_freeze_wq, percpu_ref_is_zero(&q->q_usage_counter));
  \<close>
\<close>

definition blk_mq_freeze_queue_wait :: "freeze_queue \<Rightarrow> freeze_queue option" where
  "blk_mq_freeze_queue_wait q = (if percpu_ref_is_zero q then Some q else None)"

text \<open>
  \<open>blk_mq_unfreeze_queue\<close> is two steps as well (\<open>WARN_ON_ONCE\<close> only prints):
  \<^verbatim>\<open>
    freeze_depth = atomic_dec_return(&q->mq_freeze_depth);
    WARN_ON_ONCE(freeze_depth < 0);
    if (!freeze_depth) {
        percpu_ref_reinit(&q->q_usage_counter);
        wake_up_all(&q->mq_freeze_wq);
    }
  \<close>
  \<open>blk_mq_unfreeze_queue_reinit\<close> is the second step, and \<open>blk_mq_unfreeze_queue\<close>
  the whole function when no other thread takes a step in between.
\<close>

definition blk_mq_unfreeze_queue_reinit :: "32 word \<Rightarrow> freeze_queue \<Rightarrow> freeze_queue" where
  "blk_mq_unfreeze_queue_reinit freeze_depth q =
     (if freeze_depth = 0 then wake_up_all (percpu_ref_reinit q) else q)"

definition blk_mq_unfreeze_queue :: "freeze_queue \<Rightarrow> freeze_queue" where
  "blk_mq_unfreeze_queue q =
     (case atomic_dec_return q of
        (freeze_depth, q1) \<Rightarrow> blk_mq_unfreeze_queue_reinit freeze_depth q1)"

text \<open>
  The threads that share one queue. A thread is idle, or between the two steps of
  \<open>blk_freeze_queue_start\<close> or of \<open>blk_mq_unfreeze_queue\<close>, holding its local
  \<open>freeze_depth\<close>; \<open>sys_held\<close> counts the freezes a thread has made and not yet undone. The
  steps a thread may take: the first and the second step of a freeze, the first and the
  second step of an unfreeze (only a thread that holds a freeze unfreezes), coming back
  from the wait of its freeze, entering the queue, leaving it (only a holder of a reference
  leaves), and taking the timeout work's reference. A step that cannot be taken gives
  \<open>None\<close>.
\<close>

datatype freeze_pc = Idle | Freeze_counted "32 word" | Unfreeze_counted "32 word"

record freeze_system =
  sys_queue :: freeze_queue
  sys_pc :: "nat \<Rightarrow> freeze_pc"
  sys_held :: "nat \<Rightarrow> nat"

datatype freeze_event =
  Freeze_count nat | Freeze_kill nat | Freeze_wait_done nat
  | Unfreeze_count nat | Unfreeze_reinit nat
  | Queue_enter bool nat | Queue_exit | Timeout_work

fun freeze_apply :: "freeze_event \<Rightarrow> freeze_system \<Rightarrow> freeze_system option" where
  "freeze_apply (Freeze_count t) s =
     (case sys_pc s t of
        Idle \<Rightarrow>
          (case atomic_inc_return (sys_queue s) of
             (freeze_depth, q) \<Rightarrow>
               Some (s\<lparr>sys_queue := q, sys_pc := (sys_pc s)(t := Freeze_counted freeze_depth)\<rparr>))
      | _ \<Rightarrow> None)"
| "freeze_apply (Freeze_kill t) s =
     (case sys_pc s t of
        Freeze_counted freeze_depth \<Rightarrow>
          Some (s\<lparr>sys_queue := blk_freeze_queue_start_kill freeze_depth (sys_queue s),
                  sys_pc := (sys_pc s)(t := Idle),
                  sys_held := (sys_held s)(t := sys_held s t + 1)\<rparr>)
      | _ \<Rightarrow> None)"
| "freeze_apply (Freeze_wait_done t) s =
     (case sys_pc s t of
        Idle \<Rightarrow> (case blk_mq_freeze_queue_wait (sys_queue s) of
                   None \<Rightarrow> None | Some q \<Rightarrow> Some (s\<lparr>sys_queue := q\<rparr>))
      | _ \<Rightarrow> None)"
| "freeze_apply (Unfreeze_count t) s =
     (case sys_pc s t of
        Idle \<Rightarrow>
          (if sys_held s t = 0 then None
           else case atomic_dec_return (sys_queue s) of
                  (freeze_depth, q) \<Rightarrow>
                    Some (s\<lparr>sys_queue := q,
                            sys_pc := (sys_pc s)(t := Unfreeze_counted freeze_depth),
                            sys_held := (sys_held s)(t := sys_held s t - 1)\<rparr>))
      | _ \<Rightarrow> None)"
| "freeze_apply (Unfreeze_reinit t) s =
     (case sys_pc s t of
        Unfreeze_counted freeze_depth \<Rightarrow>
          Some (s\<lparr>sys_queue := blk_mq_unfreeze_queue_reinit freeze_depth (sys_queue s),
                  sys_pc := (sys_pc s)(t := Idle)\<rparr>)
      | _ \<Rightarrow> None)"
| "freeze_apply (Queue_enter nowait t) s =
     Some (s\<lparr>sys_queue := snd (blk_queue_enter (sys_queue s) nowait t)\<rparr>)"
| "freeze_apply Queue_exit s =
     (if 0 < usage_count (sys_queue s) then Some (s\<lparr>sys_queue := blk_queue_exit (sys_queue s)\<rparr>)
      else None)"
| "freeze_apply Timeout_work s =
     Some (case percpu_ref_tryget (sys_queue s) of
             None \<Rightarrow> s | Some q \<Rightarrow> s\<lparr>sys_queue := q\<rparr>)"

fun freeze_run :: "freeze_event list \<Rightarrow> freeze_system \<Rightarrow> freeze_system option" where
  "freeze_run [] s = Some s"
| "freeze_run (e # es) s =
     (case freeze_apply e s of None \<Rightarrow> None | Some s' \<Rightarrow> freeze_run es s')"

text \<open>A queue as it is created: not frozen, admission open, nothing in flight, all idle.\<close>

definition freeze_system_init :: freeze_system where
  "freeze_system_init =
     \<lparr> sys_queue = \<lparr> mq_freeze_depth = 0, usage_dead = False, usage_count = 0,
                      mq_freeze_wq = [] \<rparr>,
       sys_pc = (\<lambda>t. Idle), sys_held = (\<lambda>t. 0) \<rparr>"

text \<open>
  Run with no step of another thread in between, both functions keep "admission is stopped
  exactly while the depth is not zero" (as long as the 32-bit counter does not wrap).
\<close>

definition freeze_inv :: "freeze_queue \<Rightarrow> bool" where
  "freeze_inv q = (usage_dead q = (mq_freeze_depth q \<noteq> 0))"

lemma blk_freeze_queue_start_undisturbed:
  assumes "freeze_inv q" and "mq_freeze_depth q \<noteq> - 1"
  shows "freeze_inv (blk_freeze_queue_start q)"
proof -
  have "mq_freeze_depth q + 1 \<noteq> 0"
    using assms(2) by (metis add.commute add_eq_0_iff)
  moreover have "(mq_freeze_depth q + 1 = 1) = (mq_freeze_depth q = 0)" by simp
  ultimately show ?thesis
    using assms(1)
    by (auto simp: freeze_inv_def blk_freeze_queue_start_def atomic_inc_return_def
        blk_freeze_queue_start_kill_def percpu_ref_kill_def)
qed

lemma blk_mq_unfreeze_queue_undisturbed:
  assumes "freeze_inv q" and "mq_freeze_depth q \<noteq> 0"
  shows "freeze_inv (blk_mq_unfreeze_queue q)"
  using assms
  by (auto simp: freeze_inv_def blk_mq_unfreeze_queue_def atomic_dec_return_def
      blk_mq_unfreeze_queue_reinit_def percpu_ref_reinit_def wake_up_all_def)

text \<open>
  C4. The counter does not keep admission stopped while the depth is above zero when an
  unfreeze and a freeze overlap. Thread 0 has frozen the queue and starts to unfreeze it:
  its \<open>atomic_dec_return\<close> gives 0. Before it goes on, thread 1 freezes the queue: its
  \<open>atomic_inc_return\<close> gives 1, so it stops admission, and goes to wait for the queue to
  drain. Thread 0 then resets the reference and wakes the sleepers, because its own
  \<open>freeze_depth\<close> was 0. Now the depth is 1, admission is open, \<open>blk_queue_enter\<close>
  admits a request, and the wait of thread 1 cannot come back, the reference being live.
  The same two calls one after the other leave the depth at 1 with admission stopped.
\<close>

theorem blk_mq_unfreeze_queue_races_freeze:
  "map_option sys_queue
     (freeze_run [Freeze_count 0, Freeze_kill 0, Freeze_wait_done 0,
                  Unfreeze_count 0, Freeze_count 1, Freeze_kill 1, Unfreeze_reinit 0]
        freeze_system_init)
     = Some \<lparr> mq_freeze_depth = 1, usage_dead = False, usage_count = 0, mq_freeze_wq = [] \<rparr>
   \<and> blk_queue_enter
         \<lparr> mq_freeze_depth = 1, usage_dead = False, usage_count = 0, mq_freeze_wq = [] \<rparr> True 2
       = (Entered,
          \<lparr> mq_freeze_depth = 1, usage_dead = False, usage_count = 1, mq_freeze_wq = [] \<rparr>)
   \<and> blk_mq_freeze_queue_wait
         \<lparr> mq_freeze_depth = 1, usage_dead = False, usage_count = 0, mq_freeze_wq = [] \<rparr> = None
   \<and> map_option sys_queue
       (freeze_run [Freeze_count 0, Freeze_kill 0, Freeze_wait_done 0,
                    Unfreeze_count 0, Unfreeze_reinit 0, Freeze_count 1, Freeze_kill 1]
          freeze_system_init)
     = Some \<lparr> mq_freeze_depth = 1, usage_dead = True, usage_count = 0, mq_freeze_wq = [] \<rparr>"
  by code_simp


end
